theory Spec2Isabelle
  imports Main "HOL-Library.Word"
begin

chapter \<open>TexFlowyTM: math rendering in an outliner\<close>

text \<open>
  The repository holds two user scripts. \<^verbatim>\<open>TeXFlowy-with-AsciiMath\<close> (two versions of it)
  inserts a rendered sibling next to every content node that holds math; \<^verbatim>\<open>TeXFlowy\<close>
  renders in place and restores the TeX source of the focused item. Both are embedded here:
  strings are lists of UTF-16 code units, regular expressions run on a backtracking matcher,
  the page of the first script is a store of node records, the document of the second one a
  tree of identified nodes, and a JavaScript exception is a value that carries the state
  reached when it was raised. What the scripts call and do not contain is a parameter: the
  AsciiMath parser, the renderer, and the serialiser and the parser of the browser.
\<close>

section \<open>Strings, errors and regular expressions\<close>


type_synonym jchar = "16 word"
type_synonym jstring = "jchar list"

definition js :: "string \<Rightarrow> jstring" where
  "js s = map of_char s"

datatype error = TypeError | ParseError | NoModificationAllowedError

datatype rx = Chr jchar | Dot | Opt rx | LazyPlus rx | Cat rx rx | Grp nat rx

type_synonym caps = "(nat \<times> jstring) list"

definition lineTerminator :: "jchar \<Rightarrow> bool" where
  "lineTerminator c = (c = 0x0A \<or> c = 0x0D \<or> c = 0x2028 \<or> c = 0x2029)"

function run :: "bool \<Rightarrow> rx \<Rightarrow> jstring \<Rightarrow> (caps \<times> jstring) list" where
  "run dotAll (Chr c) s = (case s of [] \<Rightarrow> [] | x # xs \<Rightarrow> if x = c then [([], xs)] else [])"
| "run dotAll Dot s =
     (case s of [] \<Rightarrow> [] | x # xs \<Rightarrow> if dotAll \<or> \<not> lineTerminator x then [([], xs)] else [])"
| "run dotAll (Opt a) s = run dotAll a s @ [([], s)]"
| "run dotAll (LazyPlus a) s =
     concat (map (\<lambda>r. r #
        (if length (snd r) < length s
         then map (\<lambda>q. (fst r @ fst q, snd q)) (run dotAll (LazyPlus a) (snd r))
         else []))
       (run dotAll a s))"
| "run dotAll (Cat a b) s =
     concat (map (\<lambda>r. map (\<lambda>q. (fst r @ fst q, snd q)) (run dotAll b (snd r))) (run dotAll a s))"
| "run dotAll (Grp i a) s =
     map (\<lambda>r. (fst r @ [(i, take (length s - length (snd r)) s)], snd r)) (run dotAll a s)"
  by pat_completeness auto
termination
  by (relation "inv_image (less_than <*lex*> less_than) (\<lambda>(d, r, s). (size r, length s))") auto

fun exec :: "bool \<Rightarrow> rx \<Rightarrow> jstring \<Rightarrow> (caps \<times> jstring) option" where
  "exec dotAll r [] = (case run dotAll r [] of [] \<Rightarrow> None | m # _ \<Rightarrow> Some m)"
| "exec dotAll r (c # cs) =
     (case run dotAll r (c # cs) of [] \<Rightarrow> exec dotAll r cs | m # _ \<Rightarrow> Some m)"

definition latex_regex :: rx where
  "latex_regex = Cat (Chr 0x24) (Cat (Opt (Grp 1 (Chr 0x24)))
     (Cat (Grp 2 (LazyPlus Dot)) (Cat (Chr 0x24) (Opt (Grp 3 (Chr 0x24))))))"

definition asciimath_regex :: rx where
  "asciimath_regex = Cat (Chr 0x60) (Cat (Grp 1 (LazyPlus Dot)) (Chr 0x60))"

function replaceAll ::
  "bool \<Rightarrow> rx \<Rightarrow> (jstring \<Rightarrow> caps \<Rightarrow> error + jstring) \<Rightarrow> jstring \<Rightarrow> error + jstring" where
  "replaceAll dotAll r f s =
     (case run dotAll r s of
        [] \<Rightarrow> (case s of [] \<Rightarrow> Inr []
                | c # cs \<Rightarrow> (case replaceAll dotAll r f cs of Inl e \<Rightarrow> Inl e | Inr t \<Rightarrow> Inr (c # t)))
      | m # _ \<Rightarrow>
          (case f (take (length s - length (snd m)) s) (fst m) of
             Inl e \<Rightarrow> Inl e
           | Inr rep \<Rightarrow>
               if length (snd m) < length s
               then (case replaceAll dotAll r f (snd m) of Inl e \<Rightarrow> Inl e | Inr t \<Rightarrow> Inr (rep @ t))
               else (case s of [] \<Rightarrow> Inr rep
                     | c # cs \<Rightarrow> (case replaceAll dotAll r f cs of
                                   Inl e \<Rightarrow> Inl e | Inr t \<Rightarrow> Inr (rep @ c # t)))))"
  by pat_completeness auto
termination
  by (relation "measure (\<lambda>(d, r, f, s). length s)") auto

definition convert_to_latex :: "(jstring \<Rightarrow> error + jstring) \<Rightarrow> jstring \<Rightarrow> error + jstring" where
  "convert_to_latex parse str =
     replaceAll False asciimath_regex
       (\<lambda>match cs. case map_of cs 1 of
            None \<Rightarrow> Inl TypeError
          | Some p1 \<Rightarrow> (case parse p1 of Inl e \<Rightarrow> Inl e | Inr t \<Rightarrow> Inr ([0x24] @ t @ [0x24])))
       str"



fun dots :: "bool \<Rightarrow> jstring \<Rightarrow> jstring list" where
  "dots d [] = []"
| "dots d (x # xs) = (if d \<or> \<not> lineTerminator x then xs # dots d xs else [])"

definition pick :: "nat \<Rightarrow> jchar \<Rightarrow> jstring \<Rightarrow> jstring \<Rightarrow> (caps \<times> jstring) list" where
  "pick i c xs t = (case t of [] \<Rightarrow> [] | y # ys \<Rightarrow>
       if y = c then [([(i, take (length xs - length t) xs)], ys)] else [])"

definition rems :: "bool \<Rightarrow> rx \<Rightarrow> jstring \<Rightarrow> jstring set" where
  "rems d r s = snd ` set (run d r s)"


section \<open>The page of TeXFlowy-with-AsciiMath\<close>

type_synonym nid = nat

datatype handler =
    NoteFocus nid
  | NoteBlur nid
  | ToggleFocus nid nid nid
  | ToggleBlur nid nid nid
  | ClickFocus nid

record nrec =
  tagName :: "string option"
  classList :: "string list"
  parentElement :: "nid option"
  childNodes :: "nid list"
  textContent :: jstring
  innerHTML :: jstring
  onfocus :: "handler option"
  onblur :: "handler option"
  style :: "string \<Rightarrow> string option"
  listeners :: "(string \<times> handler) list"

type_synonym page = "nrec list"

record env =
  asciimath_parse :: "jstring \<Rightarrow> error + jstring"
  html_text :: "jstring \<Rightarrow> jstring"
  katex_render :: "jstring \<Rightarrow> jstring"

definition has_latex :: "nrec \<Rightarrow> bool" where
  "has_latex node = (let text = textContent node in exec True latex_regex text \<noteq> None)"

definition has_asciimath :: "nrec \<Rightarrow> bool" where
  "has_asciimath node = (let text = textContent node in exec True asciimath_regex text \<noteq> None)"

definition blank :: nrec where
  "blank = \<lparr>tagName = None, classList = [], parentElement = None, childNodes = [],
     textContent = [], innerHTML = [], onfocus = None, onblur = None,
     style = (\<lambda>_. None), listeners = []\<rparr>"

definition deref :: "page \<Rightarrow> nid \<Rightarrow> nrec" where
  "deref s i = (if i < length s then s ! i else blank)"

definition upd :: "nid \<Rightarrow> (nrec \<Rightarrow> nrec) \<Rightarrow> page \<Rightarrow> page" where
  "upd i f s = (if i < length s then s[i := f (s ! i)] else s)"

definition createElement :: "string \<Rightarrow> page \<Rightarrow> nid \<times> page" where
  "createElement tag s = (length s, s @ [blank\<lparr>tagName := Some tag\<rparr>])"

fun next_after :: "nid \<Rightarrow> nid list \<Rightarrow> nid option" where
  "next_after p [] = None"
| "next_after p (x # xs) =
     (if x = p then (case xs of [] \<Rightarrow> None | y # _ \<Rightarrow> Some y) else next_after p xs)"

fun insert_after :: "nid \<Rightarrow> nid \<Rightarrow> nid list \<Rightarrow> nid list" where
  "insert_after p c [] = []"
| "insert_after p c (x # xs) = (if x = p then x # c # xs else x # insert_after p c xs)"

definition nextSibling :: "page \<Rightarrow> nid \<Rightarrow> nid option" where
  "nextSibling s p =
     (case parentElement (deref s p) of None \<Rightarrow> None
      | Some g \<Rightarrow> next_after p (childNodes (deref s g)))"

definition remove_node :: "nid \<Rightarrow> page \<Rightarrow> page" where
  "remove_node x s =
     (case parentElement (deref s x) of None \<Rightarrow> s
      | Some g \<Rightarrow> upd x (\<lambda>r. r\<lparr>parentElement := None\<rparr>)
                   (upd g (\<lambda>r. r\<lparr>childNodes := remove1 x (childNodes r)\<rparr>) s))"

definition insertAdjacentElement_afterend :: "nid \<Rightarrow> nid \<Rightarrow> page \<Rightarrow> page" where
  "insertAdjacentElement_afterend p c s =
     (case parentElement (deref s p) of None \<Rightarrow> s
      | Some g \<Rightarrow> upd c (\<lambda>r. r\<lparr>parentElement := Some g\<rparr>)
                   (upd g (\<lambda>r. r\<lparr>childNodes := insert_after p c (childNodes r)\<rparr>)
                      (remove_node c s)))"

definition classList_add :: "nid \<Rightarrow> string \<Rightarrow> page \<Rightarrow> page" where
  "classList_add i c s =
     upd i (\<lambda>r. if c \<in> set (classList r) then r else r\<lparr>classList := classList r @ [c]\<rparr>) s"

definition classList_remove :: "nid \<Rightarrow> string \<Rightarrow> page \<Rightarrow> page" where
  "classList_remove i c s = upd i (\<lambda>r. r\<lparr>classList := removeAll c (classList r)\<rparr>) s"

definition classList_item :: "nrec \<Rightarrow> nat \<Rightarrow> string" where
  "classList_item r k = (if k < length (classList r) then classList r ! k else ''undefined'')"

definition set_style :: "nid \<Rightarrow> string \<Rightarrow> string \<Rightarrow> page \<Rightarrow> page" where
  "set_style i k v s = upd i (\<lambda>r. r\<lparr>style := (style r)(k \<mapsto> v)\<rparr>) s"

definition set_innerHTML :: "env \<Rightarrow> nid \<Rightarrow> jstring \<Rightarrow> page \<Rightarrow> page" where
  "set_innerHTML E i html s = upd i (\<lambda>r. r\<lparr>innerHTML := html, textContent := html_text E html\<rparr>) s"

definition renderMathInElement :: "env \<Rightarrow> nid \<Rightarrow> page \<Rightarrow> page" where
  "renderMathInElement E i s = set_innerHTML E i (katex_render E (innerHTML (deref s i))) s"

fun run_handler :: "handler \<Rightarrow> page \<Rightarrow> page" where
  "run_handler (NoteFocus parent) s = set_style parent ''height'' ''auto'' s"
| "run_handler (NoteBlur parent) s =
     set_style parent ''minHeight'' ''0'' (set_style parent ''height'' ''0'' s)"
| "run_handler (ToggleFocus parent container node) s =
     set_style node ''display'' ''inline''
       (set_style container ''display'' ''none'' (set_style parent ''height'' ''auto'' s))"
| "run_handler (ToggleBlur parent container node) s =
     set_style parent ''minHeight'' ''0''
       (set_style parent ''height'' ''0''
          (set_style node ''display'' ''none'' (set_style container ''display'' ''inline'' s)))"
| "run_handler (ClickFocus parent) s = s"

text \<open>
  \<open>handle_node\<close> of version 0.3.2 (the unnamed source file). The check for an existing
  container, lines 71 to 79: a next sibling that is not an element has no \<open>classList\<close>, and
  the call of \<open>contains\<close> on it raises.
\<close>

definition remove_stale :: "nid \<Rightarrow> nid \<Rightarrow> page \<Rightarrow> (error \<times> page) + page" where
  "remove_stale node parent s0 =
     (case nextSibling s0 parent of
        None \<Rightarrow> Inr s0
      | Some sib \<Rightarrow>
          (case tagName (deref s0 sib) of
             None \<Rightarrow> Inl (TypeError, s0)
           | Some _ \<Rightarrow>
               if ''rendered-latex'' \<in> set (classList (deref s0 sib))
               then Inr (classList_remove parent ''has-latex''
                          (classList_remove node ''has-latex'' (remove_node sib s0)))
               else Inr s0))"

text \<open>Lines 86 to 134: the new container, its classes, the handlers of a note, the rendering.\<close>

definition insert_container :: "env \<Rightarrow> nid \<Rightarrow> nid \<Rightarrow> page \<Rightarrow> (error \<times> page) + page" where
  "insert_container E node parent s1 =
     (case parentElement (deref s1 parent) of
        None \<Rightarrow> Inl (TypeError, s1)
      | Some gp \<Rightarrow>
          let isnote = (''notes'' \<in> set (classList (deref s1 gp)));
              s2 = classList_add parent ''has-latex'' (classList_add node ''has-latex'' s1);
              (container, s3) = createElement ''div'' s2
          in (case convert_to_latex (asciimath_parse E) (innerHTML (deref s3 node)) of
                Inl e \<Rightarrow> Inl (e, s3)
              | Inr html \<Rightarrow>
                  let s4 = set_innerHTML E container html s3;
                      s5 = upd container (\<lambda>r. r\<lparr>classList := [''rendered-latex'']\<rparr>) s4;
                      s6 = insertAdjacentElement_afterend parent container s5;
                      s7 = classList_add container (classList_item (deref s6 parent) 1) s6;
                      s8 = classList_add container (classList_item (deref s7 parent) 2) s7;
                      s9 = (if isnote
                            then upd parent (\<lambda>r. r\<lparr>onfocus := Some (NoteFocus parent),
                                                    onblur := Some (NoteBlur parent)\<rparr>) s8
                            else s8);
                      s10 = renderMathInElement E container s9;
                      s11 = (if isnote then run_handler (NoteBlur parent) s10 else s10);
                      s12 = upd container
                              (\<lambda>r. r\<lparr>listeners := listeners r @ [(''click'', ClickFocus parent)]\<rparr>) s11
                  in Inr s12))"

definition handle_node :: "env \<Rightarrow> nid \<Rightarrow> page \<Rightarrow> (error \<times> page) + page" where
  "handle_node E node s0 =
     (case parentElement (deref s0 node) of
        None \<Rightarrow> Inr s0
      | Some parent \<Rightarrow>
          (case remove_stale node parent s0 of
             Inl e \<Rightarrow> Inl e
           | Inr s1 \<Rightarrow>
               if \<not> has_latex (deref s1 node) \<and> \<not> has_asciimath (deref s1 node) then Inr s1
               else insert_container E node parent s1))"

text \<open>
  \<open>handle_node\<close> of version 0.3.0 (\<^verbatim>\<open>TeXFlowy-with-AsciiMath.user.js\<close>): the handlers of the
  parent are cleared instead of the class names, there is no test for a note, and
  \<open>insertAdjacentElement\<close> on a parent without a parent inserts nothing.
\<close>

definition remove_stale_030 :: "nid \<Rightarrow> nid \<Rightarrow> page \<Rightarrow> (error \<times> page) + page" where
  "remove_stale_030 node parent s0 =
     (case nextSibling s0 parent of
        None \<Rightarrow> Inr s0
      | Some sib \<Rightarrow>
          (case tagName (deref s0 sib) of
             None \<Rightarrow> Inl (TypeError, s0)
           | Some _ \<Rightarrow>
               if ''rendered-latex'' \<in> set (classList (deref s0 sib))
               then Inr (upd parent (\<lambda>r. r\<lparr>onfocus := None, onblur := None\<rparr>) (remove_node sib s0))
               else Inr s0))"

definition insert_container_030 :: "env \<Rightarrow> nid \<Rightarrow> nid \<Rightarrow> page \<Rightarrow> (error \<times> page) + page" where
  "insert_container_030 E node parent s1 =
     (let (container, s3) = createElement ''div'' s1
      in (case convert_to_latex (asciimath_parse E) (innerHTML (deref s3 node)) of
            Inl e \<Rightarrow> Inl (e, s3)
          | Inr html \<Rightarrow>
              let s4 = set_innerHTML E container html s3;
                  s5 = upd container (\<lambda>r. r\<lparr>classList := [''rendered-latex'']\<rparr>) s4;
                  s6 = insertAdjacentElement_afterend parent container s5;
                  s7 = classList_add container (classList_item (deref s6 parent) 1) s6;
                  s8 = classList_add container (classList_item (deref s7 parent) 2) s7;
                  s9 = upd parent (\<lambda>r. r\<lparr>onfocus := Some (ToggleFocus parent container node),
                                          onblur := Some (ToggleBlur parent container node)\<rparr>) s8;
                  s10 = renderMathInElement E container s9;
                  s11 = run_handler (ToggleBlur parent container node) s10;
                  s12 = upd container
                          (\<lambda>r. r\<lparr>listeners := listeners r @ [(''click'', ClickFocus parent)]\<rparr>) s11
              in Inr s12))"

definition handle_node_030 :: "env \<Rightarrow> nid \<Rightarrow> page \<Rightarrow> (error \<times> page) + page" where
  "handle_node_030 E node s0 =
     (case parentElement (deref s0 node) of
        None \<Rightarrow> Inr s0
      | Some parent \<Rightarrow>
          (case remove_stale_030 node parent s0 of
             Inl e \<Rightarrow> Inl e
           | Inr s1 \<Rightarrow>
               if \<not> has_latex (deref s1 node) \<and> \<not> has_asciimath (deref s1 node) then Inr s1
               else insert_container_030 E node parent s1))"

text \<open>The page that a call leaves behind, whether it returned or raised.\<close>

definition state_of :: "(error \<times> page) + page \<Rightarrow> page" where
  "state_of r = (case r of Inl (e, s) \<Rightarrow> s | Inr s \<Rightarrow> s)"

subsection \<open>Vocabulary of the claims about the page\<close>

text \<open>
  The siblings that follow a node, the rendered containers among them, and the local shape of
  a page that a document tree always has around a content node: the node, its parent and its
  grandparent are three nodes, and the child list of the grandparent holds the parent, has
  no duplicates, and holds only stored nodes whose parent is the grandparent.
\<close>

definition following :: "page \<Rightarrow> nid \<Rightarrow> nid list" where
  "following s p =
     (case parentElement (deref s p) of None \<Rightarrow> []
      | Some g \<Rightarrow> drop 1 (dropWhile (\<lambda>x. x \<noteq> p) (childNodes (deref s g))))"

definition is_container :: "page \<Rightarrow> nid \<Rightarrow> bool" where
  "is_container s x =
     (tagName (deref s x) \<noteq> None \<and> ''rendered-latex'' \<in> set (classList (deref s x)))"

definition containers :: "page \<Rightarrow> nid \<Rightarrow> nid list" where
  "containers s p = filter (is_container s) (following s p)"

definition stale :: "page \<Rightarrow> nid \<Rightarrow> nid option" where
  "stale s p = (case nextSibling s p of None \<Rightarrow> None
                | Some sib \<Rightarrow> if is_container s sib then Some sib else None)"

definition drop_stale :: "page \<Rightarrow> nid list \<Rightarrow> nid list" where
  "drop_stale s xs = (case xs of [] \<Rightarrow> [] | x # r \<Rightarrow> if is_container s x then r else xs)"

definition has_math :: "page \<Rightarrow> nid \<Rightarrow> bool" where
  "has_math s node = (has_latex (deref s node) \<or> has_asciimath (deref s node))"

definition wf_at :: "page \<Rightarrow> nid \<Rightarrow> bool" where
  "wf_at s node =
     (case parentElement (deref s node) of
        None \<Rightarrow> False
      | Some p \<Rightarrow>
          (case parentElement (deref s p) of
             None \<Rightarrow> False
           | Some g \<Rightarrow>
               node \<noteq> p \<and> p \<noteq> g \<and> node \<noteq> g \<and>
               node < length s \<and> p < length s \<and> g < length s \<and>
               distinct (childNodes (deref s g)) \<and> p \<in> set (childNodes (deref s g)) \<and>
               (\<forall>x \<in> set (childNodes (deref s g)).
                  x < length s \<and> x \<noteq> g \<and> parentElement (deref s x) = Some g)))"

text \<open>
  What the removal of the stale container and the insertion of a new container change in a
  page, as far as tags, classes, parents, child lists and texts go. Both versions of
  \<open>handle_node\<close> are shown to act within these frames.
\<close>

definition removal_frame :: "page \<Rightarrow> nid \<Rightarrow> nid \<Rightarrow> nid \<Rightarrow> page \<Rightarrow> bool" where
  "removal_frame s node p g s' \<longleftrightarrow>
     length s' = length s \<and>
     (\<forall>x. tagName (deref s' x) = tagName (deref s x)) \<and>
     (\<forall>x. textContent (deref s' x) = textContent (deref s x)) \<and>
     (\<forall>x. innerHTML (deref s' x) = innerHTML (deref s x)) \<and>
     (\<forall>x. x \<noteq> node \<longrightarrow> x \<noteq> p \<longrightarrow> classList (deref s' x) = classList (deref s x)) \<and>
     (\<forall>x. parentElement (deref s' x) =
            (if stale s p = Some x then None else parentElement (deref s x))) \<and>
     (\<forall>x. childNodes (deref s' x) =
            (case stale s p of None \<Rightarrow> childNodes (deref s x)
             | Some sib \<Rightarrow> if x = g then remove1 sib (childNodes (deref s g))
                           else childNodes (deref s x)))"

definition insertion_frame :: "page \<Rightarrow> nid \<Rightarrow> nid \<Rightarrow> nid \<Rightarrow> page \<Rightarrow> bool" where
  "insertion_frame s node p g s' \<longleftrightarrow>
     length s' = Suc (length s) \<and>
     (\<forall>x. tagName (deref s' x) = (if x = length s then Some ''div'' else tagName (deref s x))) \<and>
     textContent (deref s' node) = textContent (deref s node) \<and>
     (\<forall>x. x \<noteq> node \<longrightarrow> x \<noteq> p \<longrightarrow> x \<noteq> length s \<longrightarrow>
          classList (deref s' x) = classList (deref s x)) \<and>
     ''rendered-latex'' \<in> set (classList (deref s' (length s))) \<and>
     (\<forall>x. parentElement (deref s' x) =
            (if x = length s then Some g else parentElement (deref s x))) \<and>
     (\<forall>x. x \<noteq> length s \<longrightarrow> childNodes (deref s' x) =
            (if x = g then insert_after p (length s) (childNodes (deref s g))
             else childNodes (deref s x)))"

text \<open>A small page: a name row that holds one content element with one text container.\<close>

definition elem :: "string \<Rightarrow> string list \<Rightarrow> nid option \<Rightarrow> nid list \<Rightarrow> jstring \<Rightarrow> nrec" where
  "elem t cl par kids txt = blank\<lparr>tagName := Some t, classList := cl, parentElement := par,
      childNodes := kids, textContent := txt, innerHTML := txt\<rparr>"

definition page0 :: page where
  "page0 = [elem ''div'' [''name''] None [1] [],
            elem ''div'' [''content'', ''x''] (Some 0) [2] [],
            elem ''span'' [''innerContentContainer''] (Some 1) [] (js ''a $x$ `y`'')]"

definition env0 :: env where
  "env0 = \<lparr>asciimath_parse = Inr, html_text = id, katex_render = id\<rparr>"

text \<open>
  The same page after the host has put another element between the content element and a
  container rendered earlier.
\<close>

definition page1 :: page where
  "page1 = [elem ''div'' [''name''] None [1, 3, 4] [],
            elem ''div'' [''content'', ''x''] (Some 0) [2] [],
            elem ''span'' [''innerContentContainer''] (Some 1) [] (js ''a $x$ `y`''),
            elem ''div'' [''other''] (Some 0) [] [],
            elem ''div'' [''rendered-latex''] (Some 0) [] (js ''a $x$ $y$'')]"


section \<open>The document of TeXFlowy\<close>

text \<open>
  The second script, \<^verbatim>\<open>TeXFlowy.user.js\<close>, works on the document of the host. A node is a
  text or an element with an identity, a tag, classes and children; \<open>node_text\<close> is
  \<open>textContent\<close>, \<open>elems\<close> the elements of a subtree in document order.
\<close>

datatype node = Text jstring | Elem nid string "string list" "node list"

fun node_id :: "node \<Rightarrow> nid option" where
  "node_id (Text s) = None"
| "node_id (Elem i t c ks) = Some i"

fun has_class :: "string \<Rightarrow> node \<Rightarrow> bool" where
  "has_class cl (Text s) = False"
| "has_class cl (Elem i t c ks) = (cl \<in> set c)"

fun has_tag :: "string \<Rightarrow> node \<Rightarrow> bool" where
  "has_tag tg (Text s) = False"
| "has_tag tg (Elem i t c ks) = (t = tg)"

fun node_tag :: "node \<Rightarrow> string" where
  "node_tag (Text s) = []"
| "node_tag (Elem i t c ks) = t"

fun node_children :: "node \<Rightarrow> node list" where
  "node_children (Text s) = []"
| "node_children (Elem i t c ks) = ks"

fun elems :: "node \<Rightarrow> node list" where
  "elems (Text s) = []"
| "elems (Elem i t c ks) = Elem i t c ks # concat (map elems ks)"

definition descendants :: "node \<Rightarrow> node list" where
  "descendants n = concat (map elems (node_children n))"

fun node_text :: "node \<Rightarrow> jstring" where
  "node_text (Text s) = s"
| "node_text (Elem i t c ks) = concat (map node_text ks)"

text \<open>
  The nodes that the parser builds from markup get fresh identities when they are put into
  the document (\<open>clones\<close>); \<open>repl\<close> puts a list of nodes in the place of an element.
\<close>

fun clone :: "nid \<Rightarrow> node \<Rightarrow> node \<times> nid" and clones :: "nid \<Rightarrow> node list \<Rightarrow> node list \<times> nid" where
  "clone k (Text s) = (Text s, k)"
| "clone k (Elem i t c ks) = (let (ks', k') = clones (Suc k) ks in (Elem k t c ks', k'))"
| "clones k [] = ([], k)"
| "clones k (x # xs) =
     (let (x', k1) = clone k x; (xs', k2) = clones k1 xs in (x' # xs', k2))"

fun repl :: "nid \<Rightarrow> node list \<Rightarrow> node \<Rightarrow> node list" where
  "repl i news (Text s) = [Text s]"
| "repl i news (Elem j t c ks) =
     (if j = i then news else [Elem j t c (concat (map (repl i news) ks))])"

definition repl_below :: "nid \<Rightarrow> node list \<Rightarrow> node \<Rightarrow> node" where
  "repl_below i news n =
     (case n of Text s \<Rightarrow> Text s | Elem j t c ks \<Rightarrow> Elem j t c (concat (map (repl i news) ks)))"

fun parent_in :: "nid \<Rightarrow> node \<Rightarrow> nid option" where
  "parent_in i (Text s) = None"
| "parent_in i (Elem j t c ks) =
     (if Some i \<in> set (map node_id ks) then Some j
      else (case List.find (\<lambda>r. r \<noteq> None) (map (parent_in i) ks) of Some r \<Rightarrow> r | None \<Rightarrow> None))"

text \<open>
  The state of the page: the children of the document, the subtrees that have been removed
  from it (the script still holds references into them), the next fresh identity, and the
  \<open>onblur\<close> and \<open>onfocus\<close> handlers and the inline styles that the script sets.
\<close>

datatype content_handler = RenderContent nid | RestoreContent nid

record dom =
  doc :: "node list"
  detached :: "node list"
  fresh :: nid
  blur_handler :: "nid \<Rightarrow> content_handler option"
  focus_handler :: "nid \<Rightarrow> content_handler option"
  styles :: "nid \<Rightarrow> string \<Rightarrow> string option"

datatype parent = NoParent | DocumentParent | ElementParent nid

definition lookup :: "dom \<Rightarrow> nid \<Rightarrow> node option" where
  "lookup d i = List.find (\<lambda>n. node_id n = Some i) (concat (map elems (doc d @ detached d)))"

definition parentNode :: "dom \<Rightarrow> nid \<Rightarrow> parent" where
  "parentNode d i =
     (if Some i \<in> set (map node_id (doc d)) then DocumentParent
      else (case List.find (\<lambda>r. r \<noteq> None) (map (parent_in i) (doc d @ detached d)) of
              Some (Some p) \<Rightarrow> ElementParent p
            | _ \<Rightarrow> NoParent))"

definition replace_node :: "nid \<Rightarrow> node list \<Rightarrow> dom \<Rightarrow> dom" where
  "replace_node i news d =
     (case lookup d i of
        None \<Rightarrow> d
      | Some old \<Rightarrow> d\<lparr>doc := map (repl_below i news) (doc d),
                      detached := map (repl_below i news) (detached d) @ [old]\<rparr>)"

text \<open>
  The selectors that the script uses: a class, a tag, and \<^verbatim>\<open>.a + .b\<close> (an element of class
  \<open>b\<close> whose previous element sibling has class \<open>a\<close>), over the descendants of an element in
  document order. \<open>querySelectorAll\<close> returns a static list.
\<close>

definition querySelectorAll_class :: "string \<Rightarrow> node \<Rightarrow> nid list" where
  "querySelectorAll_class cl n = map (\<lambda>e. the (node_id e)) (filter (has_class cl) (descendants n))"

definition querySelector_class :: "string \<Rightarrow> node \<Rightarrow> node option" where
  "querySelector_class cl n = List.find (has_class cl) (descendants n)"

definition querySelector_tag :: "string \<Rightarrow> node \<Rightarrow> node option" where
  "querySelector_tag tg n = List.find (has_tag tg) (descendants n)"

fun adjacent :: "string \<Rightarrow> string \<Rightarrow> bool \<Rightarrow> node list \<Rightarrow> node list" where
  "adjacent a b prev [] = []"
| "adjacent a b prev (Text s # ns) = adjacent a b prev ns"
| "adjacent a b prev (Elem i t c ks # ns) =
     (if prev \<and> b \<in> set c then [Elem i t c ks] else []) @
     adjacent a b False ks @ adjacent a b (a \<in> set c) ns"

definition querySelectorAll_adjacent :: "string \<Rightarrow> string \<Rightarrow> node \<Rightarrow> nid list" where
  "querySelectorAll_adjacent a b n = map (\<lambda>e. the (node_id e)) (adjacent a b False (node_children n))"

text \<open>
  The script reads \<open>innerHTML\<close> and assigns to \<open>outerHTML\<close>. Both belong to the browser:
  the getter serialises the children of an element to markup, the setter has the markup
  parsed by the fragment parser, whose result depends on the context element (the parent of
  the element assigned to), here given by its tag. Serialiser and parser are parameters. The
  setter does nothing on an element without parent, raises on a child of the document, and
  otherwise replaces the element by the nodes that the parser returns for the markup in the
  context of the parent. \<open>remove\<close> takes an element out of its parent.
\<close>

record browser =
  serialize :: "node list \<Rightarrow> jstring"
  parse_fragment :: "string \<Rightarrow> jstring \<Rightarrow> node list"

definition set_outerHTML :: "browser \<Rightarrow> nid \<Rightarrow> jstring \<Rightarrow> dom \<Rightarrow> (error \<times> dom) + dom" where
  "set_outerHTML B i markup d =
     (case parentNode d i of
        NoParent \<Rightarrow> Inr d
      | DocumentParent \<Rightarrow> Inl (NoModificationAllowedError, d)
      | ElementParent p \<Rightarrow>
          let context = (case lookup d p of None \<Rightarrow> [] | Some pe \<Rightarrow> node_tag pe);
              (news, k) = clones (fresh d) (parse_fragment B context markup)
          in Inr ((replace_node i news d)\<lparr>fresh := k\<rparr>))"

definition remove_element :: "nid \<Rightarrow> dom \<Rightarrow> dom" where
  "remove_element i d =
     (case parentNode d i of
        NoParent \<Rightarrow> d
      | DocumentParent \<Rightarrow>
          (case lookup d i of None \<Rightarrow> d
           | Some old \<Rightarrow> d\<lparr>doc := filter (\<lambda>n. node_id n \<noteq> Some i) (doc d),
                           detached := detached d @ [old]\<rparr>)
      | ElementParent p \<Rightarrow> replace_node i [] d)"

text \<open>
  Lines 62 to 100, \<open>katexReplaceWithTex\<close>: three loops over lists selected beforehand. The body
  of the second and third loop is \<open>restore_block\<close>; only the third tests \<open>texSource\<close> (flag
  \<open>guarded\<close>). \<open>formulatext\<close> is the markup that the serialiser gives for the children of
  the annotation (the element read is always one of tag \<open>annotation\<close>, so the serialiser is
  given the children only), between the delimiters; it is assigned to \<open>outerHTML\<close> of the
  parent of the selected element. A loop stops at the first exception (\<open>forM\<close>).
\<close>

fun forM :: "'a list \<Rightarrow> ('a \<Rightarrow> 's \<Rightarrow> ('e \<times> 's) + 's) \<Rightarrow> 's \<Rightarrow> ('e \<times> 's) + 's" where
  "forM [] f s = Inr s"
| "forM (x # xs) f s = (case f x s of Inl e \<Rightarrow> Inl e | Inr s' \<Rightarrow> forM xs f s')"

definition inline_delims :: "jstring \<times> jstring" where "inline_delims = ([0x24], [0x24])"
definition display_delims :: "jstring \<times> jstring" where "display_delims = ([0x24, 0x24], [0x24, 0x24])"

definition restore_block ::
  "browser \<Rightarrow> bool \<Rightarrow> jstring \<times> jstring \<Rightarrow> nid \<Rightarrow> dom \<Rightarrow> (error \<times> dom) + dom" where
  "restore_block B guarded delims element d =
     (case lookup d element of
        None \<Rightarrow> Inl (TypeError, d)
      | Some el \<Rightarrow>
          (case querySelector_tag ''annotation'' el of
             None \<Rightarrow> if guarded then Inr d else Inl (TypeError, d)
           | Some texSource \<Rightarrow>
               let formulatext = fst delims @ serialize B (node_children texSource) @ snd delims
               in (case parentNode d element of
                     NoParent \<Rightarrow> Inl (TypeError, d)
                   | DocumentParent \<Rightarrow> Inr d
                   | ElementParent p \<Rightarrow> set_outerHTML B p formulatext d)))"

definition select_class :: "string \<Rightarrow> nid \<Rightarrow> dom \<Rightarrow> nid list" where
  "select_class cl fragment d =
     (case lookup d fragment of None \<Rightarrow> [] | Some frag \<Rightarrow> querySelectorAll_class cl frag)"

definition remove_html_pass :: "nid \<Rightarrow> dom \<Rightarrow> dom" where
  "remove_html_pass fragment d =
     (let katexHtml = (case lookup d fragment of None \<Rightarrow> []
                       | Some frag \<Rightarrow> querySelectorAll_adjacent ''katex-mathml'' ''katex-html'' frag)
      in fold remove_element katexHtml d)"

definition display_pass :: "browser \<Rightarrow> nid \<Rightarrow> dom \<Rightarrow> (error \<times> dom) + dom" where
  "display_pass B fragment d =
     (let katexdisplays = select_class ''katex-display'' fragment d
      in forM katexdisplays (restore_block B False display_delims) d)"

definition inline_pass :: "browser \<Rightarrow> nid \<Rightarrow> dom \<Rightarrow> (error \<times> dom) + dom" where
  "inline_pass B fragment d =
     (let katexblock = select_class ''katex'' fragment d
      in forM katexblock (restore_block B True inline_delims) d)"

definition katexReplaceWithTex :: "browser \<Rightarrow> nid \<Rightarrow> dom \<Rightarrow> (error \<times> dom) + dom" where
  "katexReplaceWithTex B fragment d =
     (case display_pass B fragment (remove_html_pass fragment d) of
        Inl e \<Rightarrow> Inl e
      | Inr d2 \<Rightarrow> inline_pass B fragment d2)"

text \<open>
  The host: its items (identifier, element, previous visible sibling, each possibly \<open>null\<close>),
  the accessors of \<open>WF\<close> and the anchor offset of the selection; the event; the variables of
  the script and the callbacks that it has passed to \<open>setTimeout\<close>, in order.
\<close>

datatype item = Item (getId: string) (getElement: "nid option") (getPreviousVisibleSibling: "item option")

record host =
  currentItem :: "item option"
  focusedItem :: "item option"
  getItemById :: "string option \<Rightarrow> item option"
  anchorOffset :: nat

record event =
  keyCode :: nat
  altKey :: bool

datatype task = RenderMath | TrackFocus nat

record script =
  document :: dom
  oldfocusedItemID :: "string option"
  currentID :: "string option"
  timeouts :: "task list"

text \<open>
  Lines 109 to 161, \<open>renderMathViaKatex\<close> and \<open>renderMath\<close>. \<open>renderMathInElement\<close> of the
  library is a parameter.
\<close>

type_synonym renderer = "nid \<Rightarrow> dom \<Rightarrow> dom"

definition renderMathViaKatex :: "renderer \<Rightarrow> nid \<Rightarrow> dom \<Rightarrow> dom" where
  "renderMathViaKatex katex renderEl d = katex renderEl d"

definition contains_class :: "string \<Rightarrow> dom \<Rightarrow> nid \<Rightarrow> bool" where
  "contains_class cl d i =
     (case lookup d i of None \<Rightarrow> False | Some n \<Rightarrow> querySelector_class cl n \<noteq> None)"

definition attach_handlers :: "nid \<Rightarrow> dom \<Rightarrow> dom" where
  "attach_handlers el d =
     (let allcontent = (case lookup d el of None \<Rightarrow> []
                        | Some n \<Rightarrow> querySelectorAll_class ''content'' n)
      in fold (\<lambda>content d'.
                 if contains_class ''katex'' d' content
                 then d'\<lparr>blur_handler := (blur_handler d')(content \<mapsto> RenderContent content),
                        focus_handler := (focus_handler d')(content \<mapsto> RestoreContent content)\<rparr>
                 else d')
              allcontent d)"

definition assign_style :: "nid \<Rightarrow> string \<Rightarrow> string \<Rightarrow> dom \<Rightarrow> dom" where
  "assign_style i k v d = d\<lparr>styles := (styles d)(i := (styles d i)(k \<mapsto> v))\<rparr>"

definition unfold_notes :: "nid \<Rightarrow> dom \<Rightarrow> (error \<times> dom) + dom" where
  "unfold_notes el d =
     (let allnotes = (case lookup d el of None \<Rightarrow> []
                      | Some n \<Rightarrow> querySelectorAll_class ''notes'' n)
      in forM allnotes
           (\<lambda>note d'.
              if contains_class ''katex'' d' note
              then (case (case lookup d' note of None \<Rightarrow> None
                          | Some n \<Rightarrow> querySelector_class ''content'' n) of
                      None \<Rightarrow> Inl (TypeError, d')
                    | Some notecontent \<Rightarrow>
                        let c = the (node_id notecontent)
                        in Inr (assign_style c ''overflow'' ''visible''
                                 (assign_style c ''maxHeight'' ''none''
                                   (assign_style c ''height'' ''auto''
                                     (assign_style c ''display'' ''block'' d')))))
              else Inr d')
           d)"

definition on_dom :: "script \<Rightarrow> (error \<times> dom) + dom \<Rightarrow> (error \<times> script) + script" where
  "on_dom st r = (case r of Inl (e, d) \<Rightarrow> Inl (e, st\<lparr>document := d\<rparr>)
                  | Inr d \<Rightarrow> Inr (st\<lparr>document := d\<rparr>))"

definition renderMath :: "renderer \<Rightarrow> host \<Rightarrow> script \<Rightarrow> (error \<times> script) + script" where
  "renderMath R WF st =
     (case currentItem WF of
        None \<Rightarrow> Inr st
      | Some current \<Rightarrow>
          (case getElement current of
             None \<Rightarrow> Inr st
           | Some currentElem \<Rightarrow>
               on_dom st (unfold_notes currentElem
                 (attach_handlers currentElem
                   (renderMathViaKatex R currentElem (document st))))))"

text \<open>
  Lines 205 to 280, \<open>wfEventListener\<close>: the part that runs when the key goes down
  (\<open>backspace_block\<close> is the branch of key code 8), and the callback that it defers
  (\<open>track_focus\<close>). \<open>run_timeout\<close> runs the first deferred callback.
\<close>

datatype flow = Return | Continue

definition backspace_block ::
  "browser \<Rightarrow> host \<Rightarrow> script \<Rightarrow> (error \<times> script) + (flow \<times> script)" where
  "backspace_block B WF st =
     (if anchorOffset WF = 0
      then (case focusedItem WF of
              None \<Rightarrow> Inl (TypeError, st)
            | Some focused \<Rightarrow>
                (case getPreviousVisibleSibling focused of
                   None \<Rightarrow> Inr (Continue, st)
                 | Some previousitem \<Rightarrow>
                     (case getElement previousitem of
                        None \<Rightarrow> Inr (Continue, st)
                      | Some previouselement \<Rightarrow>
                          if \<not> contains_class ''katex-mathml'' (document st) previouselement
                          then Inr (Return, st)
                          else (case katexReplaceWithTex B previouselement (document st) of
                                  Inl (e, d) \<Rightarrow> Inl (e, st\<lparr>document := d\<rparr>)
                                | Inr d \<Rightarrow> Inr (Continue, st\<lparr>document := d\<rparr>)))))
      else Inr (Continue, st))"

definition wfEventListener ::
  "browser \<Rightarrow> host \<Rightarrow> event \<Rightarrow> script \<Rightarrow> (error \<times> script) + script" where
  "wfEventListener B WF eventObject st =
     (if keyCode eventObject = 13 \<and> altKey eventObject
      then Inr (st\<lparr>timeouts := timeouts st @ [RenderMath]\<rparr>)
      else (case (if keyCode eventObject = 8 then backspace_block B WF st else Inr (Continue, st)) of
              Inl e \<Rightarrow> Inl e
            | Inr (Return, st') \<Rightarrow> Inr st'
            | Inr (Continue, st') \<Rightarrow>
                Inr (st'\<lparr>timeouts := timeouts st' @ [TrackFocus (keyCode eventObject)]\<rparr>)))"

definition rerender_old :: "renderer \<Rightarrow> host \<Rightarrow> script \<Rightarrow> (error \<times> script) + script" where
  "rerender_old R WF st =
     (if currentID st \<noteq> oldfocusedItemID st
      then (case getItemById WF (oldfocusedItemID st) of
              None \<Rightarrow> Inr st
            | Some oldfocusItem \<Rightarrow>
                (case getElement oldfocusItem of
                   None \<Rightarrow> Inr st
                 | Some oldfocuselement \<Rightarrow>
                     on_dom st (unfold_notes oldfocuselement
                       (attach_handlers oldfocuselement
                         (renderMathViaKatex R oldfocuselement (document st))))))
      else Inr st)"

definition track_focus ::
  "browser \<Rightarrow> renderer \<Rightarrow> host \<Rightarrow> nat \<Rightarrow> script \<Rightarrow> (error \<times> script) + script" where
  "track_focus B R WF key st =
     (case focusedItem WF of
        None \<Rightarrow> Inr st
      | Some focused \<Rightarrow>
          (case (if key = 13
                 then (case getPreviousVisibleSibling focused of
                         None \<Rightarrow> Inl (TypeError, st)
                       | Some prev \<Rightarrow> Inr (st\<lparr>oldfocusedItemID := Some (getId prev)\<rparr>))
                 else Inr st) of
             Inl e \<Rightarrow> Inl e
           | Inr st1 \<Rightarrow>
               let st2 = st1\<lparr>currentID := Some (getId focused)\<rparr>;
                   focusedelement = getElement focused
               in (case rerender_old R WF st2 of
                     Inl e \<Rightarrow> Inl e
                   | Inr st3 \<Rightarrow>
                       let st4 = st3\<lparr>oldfocusedItemID := currentID st3\<rparr>
                       in (case focusedelement of
                             None \<Rightarrow> Inl (TypeError, st4)
                           | Some fe \<Rightarrow>
                               if \<not> contains_class ''katex-mathml'' (document st4) fe
                               then Inr st4
                               else on_dom st4 (katexReplaceWithTex B fe (document st4))))))"

definition run_task ::
  "browser \<Rightarrow> renderer \<Rightarrow> host \<Rightarrow> task \<Rightarrow> script \<Rightarrow> (error \<times> script) + script" where
  "run_task B R WF t st =
     (case t of RenderMath \<Rightarrow> renderMath R WF st | TrackFocus key \<Rightarrow> track_focus B R WF key st)"

definition run_timeout ::
  "browser \<Rightarrow> renderer \<Rightarrow> host \<Rightarrow> script \<Rightarrow> (error \<times> script) + script" where
  "run_timeout B R WF st =
     (case timeouts st of [] \<Rightarrow> Inr st
      | t # ts \<Rightarrow> run_task B R WF t (st\<lparr>timeouts := ts\<rparr>))"


subsection \<open>Rendered math\<close>

text \<open>
  Modelled from the spec: the output of \<open>renderMathInElement\<close>, the auto-render extension of
  the KaTeX library that the script loads by \<^verbatim>\<open>@require\<close>; it is not part of the repository.
  According to the spec it turns every delimited span of a text node into a rendered
  subtree that is tagged so that the raw extractor can find it and that carries the source;
  the tags are those that \<open>katexReplaceWithTex\<close> selects: a wrapper element of its own around
  the block, inside it (for display math) an element of class \<open>katex-display\<close>, the element
  of class \<open>katex\<close>, its part of class \<open>katex-mathml\<close> with the source in an \<open>annotation\<close>
  element behind the presentation markup, and its part of class \<open>katex-html\<close> with the
  visual markup. Presentation and visual markup are arbitrary as long as they hold none of
  these tags (\<open>inert\<close>). A rendered element is a tree of texts, such blocks, and other
  elements of the host.
\<close>

record block_ids =
  wrapper_id :: nid
  display_id :: nid
  katex_id :: nid
  mathml_id :: nid
  math_id :: nid
  semantics_id :: nid
  annotation_id :: nid
  html_id :: nid

datatype rendered =
    RText jstring
  | RMath bool jstring block_ids "node list" "node list option"
  | RElem nid string "string list" "rendered list"

definition katex_classes :: "string list" where
  "katex_classes = [''katex'', ''katex-display'', ''katex-mathml'', ''katex-html'']"

fun inert :: "node \<Rightarrow> bool" where
  "inert (Text s) = True"
| "inert (Elem i t c ks) =
     (t \<noteq> ''annotation'' \<and> list_all (\<lambda>x. x \<notin> set katex_classes) c \<and> list_all inert ks)"

definition katex_part :: "jstring \<Rightarrow> block_ids \<Rightarrow> node list \<Rightarrow> node list option \<Rightarrow> node" where
  "katex_part src I pres vis =
     Elem (katex_id I) ''span'' [''katex'']
       (Elem (mathml_id I) ''span'' [''katex-mathml'']
          [Elem (math_id I) ''math'' []
             [Elem (semantics_id I) ''semantics'' []
                (pres @ [Elem (annotation_id I) ''annotation'' [] [Text src]])]]
        # (case vis of None \<Rightarrow> [] | Some v \<Rightarrow> [Elem (html_id I) ''span'' [''katex-html''] v]))"

fun to_dom :: "rendered \<Rightarrow> node" where
  "to_dom (RText s) = Text s"
| "to_dom (RMath disp src I pres vis) =
     Elem (wrapper_id I) ''span'' []
       [if disp then Elem (display_id I) ''span'' [''katex-display''] [katex_part src I pres vis]
        else katex_part src I pres vis]"
| "to_dom (RElem i t c ks) = Elem i t c (map to_dom ks)"

fun proper :: "rendered \<Rightarrow> bool" where
  "proper (RText s) = True"
| "proper (RMath disp src I pres vis) =
     (list_all inert pres \<and> (case vis of None \<Rightarrow> True | Some v \<Rightarrow> list_all inert v))"
| "proper (RElem i t c ks) =
     (t \<noteq> ''annotation'' \<and> list_all (\<lambda>x. x \<notin> set katex_classes) c \<and> list_all proper ks)"

text \<open>
  The source of a rendered tree, written with the delimiters of \<open>defaultCopyDelimiters\<close>
  (lines 52 to 58).
\<close>

definition delims_of :: "bool \<Rightarrow> jstring \<times> jstring" where
  "delims_of disp = (if disp then display_delims else inline_delims)"

definition delimited :: "bool \<Rightarrow> jstring \<Rightarrow> jstring" where
  "delimited disp src = fst (delims_of disp) @ src @ snd (delims_of disp)"

fun source_of :: "rendered \<Rightarrow> jstring" where
  "source_of (RText s) = s"
| "source_of (RMath disp src I pres vis) = delimited disp src"
| "source_of (RElem i t c ks) = concat (map source_of ks)"

text \<open>
  Modelled from the spec: the text that the renderer has rendered. The configuration of
  \<open>renderMathViaKatex\<close> (lines 110 to 116) has two delimiter pairs for each mode; a formula
  of the source is written with one of them (\<open>w\<close> tells which, for the block that it
  became), and the renderer turns the text nodes of the element into texts and blocks, so that
  before rendering the element held the texts of \<open>unrendered\<close>. Two texts with the same
  pieces, whose formulas differ in the pair of their mode only, are equal up to delimiters:
  \<open>written w r\<close> and \<open>source_of r\<close> are.
\<close>

datatype pair = Dollars | Backslashes

fun left_delimiter :: "bool \<Rightarrow> pair \<Rightarrow> jstring" where
  "left_delimiter True Dollars = [0x24, 0x24]"
| "left_delimiter False Dollars = [0x24]"
| "left_delimiter True Backslashes = [0x5C, 0x5B]"
| "left_delimiter False Backslashes = [0x5C, 0x28]"

fun right_delimiter :: "bool \<Rightarrow> pair \<Rightarrow> jstring" where
  "right_delimiter True Dollars = [0x24, 0x24]"
| "right_delimiter False Dollars = [0x24]"
| "right_delimiter True Backslashes = [0x5C, 0x5D]"
| "right_delimiter False Backslashes = [0x5C, 0x29]"

definition dollars :: "nid \<Rightarrow> pair" where
  "dollars k = Dollars"

fun written :: "(nid \<Rightarrow> pair) \<Rightarrow> rendered \<Rightarrow> jstring" where
  "written w (RText s) = s"
| "written w (RMath disp src I pres vis) =
     left_delimiter disp (w (wrapper_id I)) @ src @ right_delimiter disp (w (wrapper_id I))"
| "written w (RElem i t c ks) = concat (map (written w) ks)"

fun merge_text :: "node list \<Rightarrow> node list" where
  "merge_text (Text a # Text b # ns) = merge_text (Text (a @ b) # ns)"
| "merge_text (n # ns) = n # merge_text ns"
| "merge_text [] = []"

fun unrendered :: "(nid \<Rightarrow> pair) \<Rightarrow> rendered \<Rightarrow> node" where
  "unrendered w (RText s) = Text s"
| "unrendered w (RMath disp src I pres vis) = Text (written w (RMath disp src I pres vis))"
| "unrendered w (RElem i t c ks) = Elem i t c (merge_text (map (unrendered w) ks))"

text \<open>
  What the three passes of the raw extractor make of a rendered tree. A block is replaced by
  what the parser of the browser returns, in the context of the element that the block stands
  in, for the serialised source between the delimiters of the mode of the pass.
\<close>

fun strip_html :: "rendered \<Rightarrow> rendered" where
  "strip_html (RText s) = RText s"
| "strip_html (RMath disp src I pres vis) = RMath disp src I pres None"
| "strip_html (RElem i t c ks) = RElem i t c (map strip_html ks)"

definition restored :: "browser \<Rightarrow> string \<Rightarrow> bool \<Rightarrow> jstring \<Rightarrow> node list" where
  "restored B t disp src =
     parse_fragment B t (fst (delims_of disp) @ serialize B [Text src] @ snd (delims_of disp))"

fun raw_if :: "browser \<Rightarrow> bool \<Rightarrow> string \<Rightarrow> rendered \<Rightarrow> rendered" where
  "raw_if B m t (RText s) = RText s"
| "raw_if B m t (RMath disp src I pres vis) =
     (if disp = m then RText (concat (map node_text (restored B t disp src)))
      else RMath disp src I pres vis)"
| "raw_if B m t (RElem i t' c ks) = RElem i t' c (map (raw_if B m t') ks)"

definition raw :: "browser \<Rightarrow> rendered \<Rightarrow> rendered" where
  "raw B r = raw_if B False [] (raw_if B True [] (strip_html r))"

text \<open>
  The parser returns one text for every block of the tree (\<open>textual\<close>), and that text is the
  source of the block between the delimiters (\<open>reproduces\<close>). The tag is that of the element
  that the tree stands in.
\<close>

fun textual :: "browser \<Rightarrow> string \<Rightarrow> rendered \<Rightarrow> bool" where
  "textual B t (RText s) = True"
| "textual B t (RMath disp src I pres vis) =
     (case restored B t disp src of [Text x] \<Rightarrow> True | _ \<Rightarrow> False)"
| "textual B t (RElem i t' c ks) = list_all (textual B t') ks"

fun reproduces :: "browser \<Rightarrow> string \<Rightarrow> rendered \<Rightarrow> bool" where
  "reproduces B t (RText s) = True"
| "reproduces B t (RMath disp src I pres vis) =
     (restored B t disp src = [Text (delimited disp src)])"
| "reproduces B t (RElem i t' c ks) = list_all (reproduces B t') ks"

fun html_ids :: "rendered \<Rightarrow> nid list" where
  "html_ids (RText s) = []"
| "html_ids (RMath disp src I pres vis) = (case vis of None \<Rightarrow> [] | Some v \<Rightarrow> [html_id I])"
| "html_ids (RElem i t c ks) = concat (map html_ids ks)"

fun block_sel :: "bool \<Rightarrow> rendered \<Rightarrow> nid list" where
  "block_sel m (RText s) = []"
| "block_sel m (RMath disp src I pres vis) =
     (if m then (if disp then [display_id I] else []) else [katex_id I])"
| "block_sel m (RElem i t c ks) = concat (map (block_sel m) ks)"

text \<open>Identifiers of a tree, and a document as an element list in a context of enclosing elements.\<close>

fun ids :: "node \<Rightarrow> nid list" where
  "ids (Text s) = []"
| "ids (Elem i t c ks) = i # concat (map ids ks)"

abbreviation ids_list :: "node list \<Rightarrow> nid list" where
  "ids_list ns \<equiv> concat (map ids ns)"

datatype frame = Frame nid string "string list" "node list" "node list"

fun plug :: "frame list \<Rightarrow> node list \<Rightarrow> node list" where
  "plug [] ns = ns"
| "plug (Frame i t c l r # C) ns = plug C [Elem i t c (l @ ns @ r)]"

fun ctx_ids :: "frame list \<Rightarrow> nid list" where
  "ctx_ids [] = []"
| "ctx_ids (Frame i t c l r # C) = i # ids_list l @ ids_list r @ ctx_ids C"


subsection \<open>A browser for the examples\<close>

text \<open>
  The serialiser and the fragment parser of the HTML standard on character data. The
  serialiser escapes the text of a text node (and writes an element with its tag and classes);
  the parser normalises the line breaks of its input, decodes the character references that
  the serialiser writes, drops the null character, and returns the characters as one text: as
  such in the context of an element whose content is parsed in the body, and inside the
  \<open>head\<close> and \<open>body\<close> elements that it inserts first in the context of the \<open>html\<close> element.
  Markup that holds tags is not in the examples.
\<close>

definition escape_char :: "jchar \<Rightarrow> jstring" where
  "escape_char c =
     (if c = 0x26 then js ''&amp;'' else if c = 0x3C then js ''&lt;''
      else if c = 0x3E then js ''&gt;'' else if c = 0xA0 then js ''&nbsp;'' else [c])"

definition escape :: "jstring \<Rightarrow> jstring" where
  "escape s = concat (map escape_char s)"

fun join :: "string list \<Rightarrow> string" where
  "join [] = []"
| "join [x] = x"
| "join (x # y # zs) = x @ '' '' @ join (y # zs)"

fun html_of :: "node \<Rightarrow> jstring" where
  "html_of (Text s) = escape s"
| "html_of (Elem i t c ks) =
     js (''<'' @ t) @ (if c = [] then [] else js '' class='' @ [0x22] @ js (join c) @ [0x22]) @
     js ''>'' @ concat (map html_of ks) @ js (''</'' @ t @ ''>'')"

fun newlines :: "jstring \<Rightarrow> jstring" where
  "newlines [] = []"
| "newlines [c] = [if c = 0x0D then 0x0A else c]"
| "newlines (c # e # s) =
     (if c = 0x0D \<and> e = 0x0A then 0x0A # newlines s
      else (if c = 0x0D then 0x0A else c) # newlines (e # s))"

function decode :: "jstring \<Rightarrow> jstring" where
  "decode [] = []"
| "decode (c # s) =
     (if c = 0x26 \<and> take 4 s = js ''amp;'' then 0x26 # decode (drop 4 s)
      else if c = 0x26 \<and> take 3 s = js ''lt;'' then 0x3C # decode (drop 3 s)
      else if c = 0x26 \<and> take 3 s = js ''gt;'' then 0x3E # decode (drop 3 s)
      else if c = 0x26 \<and> take 5 s = js ''nbsp;'' then 0xA0 # decode (drop 5 s)
      else c # decode s)"
  by pat_completeness auto
termination
  by (relation "measure length") auto

definition char_data :: "jstring \<Rightarrow> jstring" where
  "char_data m = filter (\<lambda>c. c \<noteq> 0) (decode (newlines m))"

definition whitespace :: "jchar \<Rightarrow> bool" where
  "whitespace c = (c = 0x09 \<or> c = 0x0A \<or> c = 0x0C \<or> c = 0x0D \<or> c = 0x20)"

definition text_node :: "jstring \<Rightarrow> node list" where
  "text_node x = (if x = [] then [] else [Text x])"

definition html5 :: browser where
  "html5 = \<lparr>serialize = (\<lambda>ns. concat (map html_of ns)),
     parse_fragment = (\<lambda>t m.
       if t = ''html''
       then [Elem 0 ''head'' [] [], Elem 0 ''body'' [] (text_node (dropWhile whitespace (char_data m)))]
       else text_node (char_data m))\<rparr>"

text \<open>Rendered trees whose formulas this browser reproduces, as shown below.\<close>

fun plain_bodies :: "rendered \<Rightarrow> bool" where
  "plain_bodies (RText s) = True"
| "plain_bodies (RMath disp src I pres vis) = (0x0D \<notin> set src \<and> 0 \<notin> set src)"
| "plain_bodies (RElem i t c ks) = (t \<noteq> ''html'' \<and> list_all plain_bodies ks)"

subsection \<open>Observing results, and some documents\<close>

definition dom_result :: "(error \<times> dom) + dom \<Rightarrow> error option \<times> node list" where
  "dom_result r = (case r of Inl (e, d) \<Rightarrow> (Some e, doc d) | Inr d \<Rightarrow> (None, doc d))"

definition script_result ::
  "(error \<times> script) + script \<Rightarrow> error option \<times> string option \<times> string option \<times> task list" where
  "script_result r =
     (case r of Inl (e, st) \<Rightarrow> (Some e, oldfocusedItemID st, currentID st, timeouts st)
      | Inr st \<Rightarrow> (None, oldfocusedItemID st, currentID st, timeouts st))"

definition script_of :: "(error \<times> script) + script \<Rightarrow> script" where
  "script_of r = (case r of Inl (e, st) \<Rightarrow> st | Inr st \<Rightarrow> st)"

definition dom_with :: "node list \<Rightarrow> dom" where
  "dom_with ns = \<lparr>doc = ns, detached = [], fresh = 1000, blur_handler = (\<lambda>_. None),
     focus_handler = (\<lambda>_. None), styles = (\<lambda>_ _. None)\<rparr>"

definition script_with :: "node list \<Rightarrow> string option \<Rightarrow> script" where
  "script_with ns i = \<lparr>document = dom_with ns, oldfocusedItemID = i, currentID = i, timeouts = []\<rparr>"

text \<open>
  An inline block as the renderer leaves it, and a content element that holds a display block
  without annotation followed by that inline block.
\<close>

definition inline_x :: node where
  "inline_x = Elem 10 ''span'' []
     [Elem 11 ''span'' [''katex'']
        [Elem 12 ''span'' [''katex-mathml'']
           [Elem 13 ''math'' []
              [Elem 14 ''semantics'' []
                 [Elem 15 ''mrow'' [] [Text (js ''x'')],
                  Elem 16 ''annotation'' [] [Text (js ''x'')]]]],
         Elem 17 ''span'' [''katex-html''] [Text (js ''x'')]]]"

definition broken_display :: "node list" where
  "broken_display = [Elem 0 ''html'' []
     [Elem 1 ''div'' [''content'']
        [Elem 2 ''span'' []
           [Elem 3 ''span'' [''katex-display'']
              [Elem 4 ''span'' [''katex''] [Elem 5 ''span'' [''katex-mathml''] []]]],
         inline_x]]]"

definition broken_inline :: "node list" where
  "broken_inline = [Elem 0 ''html'' []
     [Elem 1 ''div'' [''content'']
        [Elem 2 ''span'' [] [Elem 4 ''span'' [''katex''] [Elem 5 ''span'' [''katex-mathml''] []]],
         inline_x]]]"

text \<open>Two outline items, the host with nothing focused, and the host with each item focused.\<close>

definition item_A :: item where "item_A = Item ''A'' (Some 1) None"
definition item_B :: item where "item_B = Item ''B'' (Some 2) (Some item_A)"

definition two_items :: "node list" where
  "two_items = [Elem 0 ''html'' []
     [Elem 1 ''div'' [''project''] [Elem 3 ''div'' [''content''] [Text (js ''a'')]],
      Elem 2 ''div'' [''project''] [Elem 4 ''div'' [''content''] [Text (js ''b'')]]]]"

definition by_id :: "string option \<Rightarrow> item option" where
  "by_id i = (if i = Some ''A'' then Some item_A else if i = Some ''B'' then Some item_B else None)"

definition host_focus :: "item option \<Rightarrow> host" where
  "host_focus i = \<lparr>currentItem = Some item_A, focusedItem = i, getItemById = by_id,
     anchorOffset = 0\<rparr>"

definition keydown :: "nat \<Rightarrow> event" where
  "keydown k = \<lparr>keyCode = k, altKey = False\<rparr>"

definition no_render :: renderer where
  "no_render el d = d"


text \<open>
  An outline item as the renderer leaves it: its content holds text, an inline block and a
  display block. The item stands in the document before a second item.
\<close>

definition ids_from :: "nid \<Rightarrow> block_ids" where
  "ids_from k = \<lparr>wrapper_id = k, display_id = k + 1, katex_id = k + 2, mathml_id = k + 3,
     math_id = k + 4, semantics_id = k + 5, annotation_id = k + 6, html_id = k + 7\<rparr>"

definition rendered_content :: "rendered list" where
  "rendered_content =
     [RElem 3 ''div'' [''content'']
        [RText (js ''a ''),
         RMath False (js ''x'') (ids_from 10) [Elem 18 ''mi'' [] [Text (js ''x'')]]
           (Some [Elem 19 ''span'' [''base''] [Text (js ''x'')]]),
         RText (js '' b ''),
         RMath True (js ''y'') (ids_from 20) [Elem 28 ''mi'' [] [Text (js ''y'')]]
           (Some [Elem 29 ''span'' [''base''] [Text (js ''y'')]])]]"

definition outline :: "frame list" where
  "outline = [Frame 0 ''html'' [] []
     [Elem 2 ''div'' [''project''] [Elem 4 ''div'' [''content''] [Text (js ''b'')]]]]"

definition rendered_page :: "node list" where
  "rendered_page = plug outline [to_dom (RElem 1 ''div'' [''project''] rendered_content)]"

text \<open>
  The same page before rendering, with the second formula written in the other pair of its
  mode, and a renderer that renders its first item the way the library does.
\<close>

definition pairs :: "nid \<Rightarrow> pair" where
  "pairs k = (if k = 20 then Backslashes else Dollars)"

definition raw_page :: "node list" where
  "raw_page = plug outline
     [Elem 1 ''div'' [''project'']
        [Elem 3 ''div'' [''content''] [Text (js ''a $x$ b '' @ [0x5C, 0x5B, 0x79, 0x5C, 0x5D])]]]"

definition katex_page :: renderer where
  "katex_page el d = (if el = 1 then d\<lparr>doc := rendered_page\<rparr> else d)"

text \<open>
  An item whose formula holds a carriage return between \<open>a\<close> and \<open>b\<close>, rendered.
\<close>

definition cr_content :: "rendered list" where
  "cr_content =
     [RElem 3 ''div'' [''content'']
        [RMath False [0x61, 0x0D, 0x62] (ids_from 10)
           [Elem 18 ''mi'' [] [Text (js ''a'')], Elem 19 ''mi'' [] [Text (js ''b'')]] None]]"

definition cr_page :: "node list" where
  "cr_page = plug outline [to_dom (RElem 1 ''div'' [''project''] cr_content)]"

definition cr_raw_page :: "node list" where
  "cr_raw_page = plug outline
     [Elem 1 ''div'' [''project''] [Elem 3 ''div'' [''content''] [Text [0x24, 0x61, 0x0D, 0x62, 0x24]]]]"

definition katex_cr :: renderer where
  "katex_cr el d = (if el = 1 then d\<lparr>doc := cr_page\<rparr> else d)"

section \<open>Properties of the matcher\<close>

declare run.simps [simp del]
declare replaceAll.simps [simp del]

lemmas run_simps = run.simps(1,2,3,5,6)

lemma length_dots: "t \<in> set (dots d s) \<Longrightarrow> length t < length s"
  by (induction s arbitrary: t) (fastforce split: if_splits)+

lemma run_LazyPlus_Dot: "run d (LazyPlus Dot) s = map (Pair []) (dots d s)"
proof (induction s)
  case Nil
  show ?case by (simp add: run.simps(4)[of d Dot "[]"] run_simps)
next
  case (Cons x xs)
  show ?case using Cons by (simp add: run.simps(4)[of d Dot "x # xs"] run_simps)
qed

lemma dots_all_iff: "t \<in> set (dots True s) \<longleftrightarrow> (\<exists>k. 0 < k \<and> k \<le> length s \<and> t = drop k s)"
proof (induction s)
  case Nil
  show ?case by simp
next
  case (Cons x xs)
  show ?case
  proof
    assume "t \<in> set (dots True (x # xs))"
    then consider "t = xs" | "t \<in> set (dots True xs)" by auto
    then show "\<exists>k. 0 < k \<and> k \<le> length (x # xs) \<and> t = drop k (x # xs)"
    proof cases
      case 1
      then have "0 < (1::nat) \<and> 1 \<le> length (x # xs) \<and> t = drop 1 (x # xs)" by simp
      then show ?thesis by blast
    next
      case 2
      then obtain k where "0 < k" "k \<le> length xs" "t = drop k xs" using Cons by blast
      then have "0 < Suc k \<and> Suc k \<le> length (x # xs) \<and> t = drop (Suc k) (x # xs)" by simp
      then show ?thesis by blast
    qed
  next
    assume "\<exists>k. 0 < k \<and> k \<le> length (x # xs) \<and> t = drop k (x # xs)"
    then obtain k where k: "0 < k" "k \<le> length (x # xs)" "t = drop k (x # xs)" by blast
    then obtain j where j: "k = Suc j" by (cases k) auto
    show "t \<in> set (dots True (x # xs))"
    proof (cases j)
      case 0
      with k j show ?thesis by simp
    next
      case (Suc i)
      with k j have "0 < j \<and> j \<le> length xs \<and> t = drop j xs" by simp
      then have "t \<in> set (dots True xs)" using Cons by blast
      then show ?thesis by simp
    qed
  qed
qed

lemma dots_sub: "t \<in> set (dots d s) \<Longrightarrow> \<exists>k. 0 < k \<and> k \<le> length s \<and> t = drop k s"
proof (induction s)
  case Nil
  then show ?case by simp
next
  case (Cons x xs)
  from Cons.prems consider "t = xs" | "t \<in> set (dots d xs)" by (auto split: if_splits)
  then show ?case
  proof cases
    case 1
    then have "0 < (1::nat) \<and> 1 \<le> length (x # xs) \<and> t = drop 1 (x # xs)" by simp
    then show ?thesis by blast
  next
    case 2
    then obtain k where "0 < k" "k \<le> length xs" "t = drop k xs" using Cons.IH by blast
    then have "0 < Suc k \<and> Suc k \<le> length (x # xs) \<and> t = drop (Suc k) (x # xs)" by simp
    then show ?thesis by blast
  qed
qed

lemma run_body: 
  "run d (Cat (Grp i (LazyPlus Dot)) (Chr c)) xs = concat (map (pick i c xs) (dots d xs))"
proof -
  have "map (\<lambda>q. ((i, take (length xs - length t) xs) # fst q, snd q))
          (case t of [] \<Rightarrow> [] | y # ys \<Rightarrow> if y = c then [([], ys)] else []) = pick i c xs t" for t
    by (cases t) (simp_all add: pick_def)
  then show ?thesis
    by (simp add: run_simps run_LazyPlus_Dot comp_def)
qed

lemma pick_nonempty: "pick i c xs t \<noteq> [] \<longleftrightarrow> (\<exists>r. t = c # r)"
  by (cases t) (auto simp: pick_def)

lemma run_delim:
  "run d (Cat (Chr c) (Cat (Grp i (LazyPlus Dot)) (Chr c))) s =
     (case s of [] \<Rightarrow> [] | x # xs \<Rightarrow> if x = c then concat (map (pick i c xs) (dots d xs)) else [])"
  by (cases s) (simp_all add: run.simps(5)[of d "Chr c"] run.simps(1) run_body)

lemma run_delim_nonempty:
  "run d (Cat (Chr c) (Cat (Grp i (LazyPlus Dot)) (Chr c))) s \<noteq> [] \<longleftrightarrow>
     (\<exists>xs. s = c # xs \<and> (\<exists>t \<in> set (dots d xs). \<exists>r. t = c # r))"
  by (cases s) (auto simp: run_delim pick_nonempty)


lemma run_nonempty_rems: "run d r s \<noteq> [] \<longleftrightarrow> rems d r s \<noteq> {}"
  by (simp add: rems_def)

lemma rems_Chr: "rems d (Chr c) s = (case s of [] \<Rightarrow> {} | x # xs \<Rightarrow> if x = c then {xs} else {})"
  by (simp add: rems_def run_simps split: list.split)

lemma rems_Opt: "rems d (Opt a) s = rems d a s \<union> {s}"
  by (simp add: rems_def run_simps)

lemma rems_Grp: "rems d (Grp i a) s = rems d a s"
  by (simp add: rems_def run_simps image_image)

lemma rems_Cat: "rems d (Cat a b) s = (\<Union>t \<in> rems d a s. rems d b t)"
  by (auto simp: rems_def run_simps image_image image_iff) force+

lemma rems_LazyPlus_Dot: "rems d (LazyPlus Dot) s = set (dots d s)"
  by (simp add: rems_def run_LazyPlus_Dot image_image)

lemma dots_starts_all: "(\<exists>u \<in> set (dots True t). \<exists>v. u = c # v) \<longleftrightarrow> c \<in> set (drop 1 t)"
proof (induction t)
  case Nil
  show ?case by simp
next
  case (Cons x xs)
  have "(\<exists>v. xs = c # v) \<or> c \<in> set (drop 1 xs) \<longleftrightarrow> c \<in> set xs"
    by (cases xs) auto
  with Cons show ?case by auto
qed

lemma dots_starts: "u \<in> set (dots d t) \<Longrightarrow> u = c # v \<Longrightarrow> c \<in> set (drop 1 t)"
proof (induction t)
  case Nil
  then show ?case by simp
next
  case (Cons x xs)
  from Cons.prems consider "u = xs" | "u \<in> set (dots d xs)" by (auto split: if_splits)
  then show ?case
  proof cases
    case 1
    with Cons.prems show ?thesis by simp
  next
    case 2
    then have "c \<in> set (drop 1 xs)" using Cons by blast
    then have "c \<in> set xs" by (meson in_set_dropD)
    then show ?thesis by simp
  qed
qed

lemma latex_regex_matches_at:
  "run True latex_regex s \<noteq> [] \<longleftrightarrow> (\<exists>xs. s = 0x24 # xs \<and> 0x24 \<in> set (drop 1 xs))"
proof (cases s)
  case Nil
  then show ?thesis
    by (simp add: run_nonempty_rems latex_regex_def rems_Cat rems_Chr)
next
  case (Cons x xs)
  have tail: "rems True (Cat (Chr 0x24) (Opt (Grp 3 (Chr 0x24)))) u \<noteq> {} \<longleftrightarrow> (\<exists>v. u = 0x24 # v)" for u
    by (cases u) (simp_all add: rems_Cat rems_Chr rems_Opt)
  have body: "rems True (Cat (Grp 2 (LazyPlus Dot)) (Cat (Chr 0x24) (Opt (Grp 3 (Chr 0x24))))) t \<noteq> {}
      \<longleftrightarrow> 0x24 \<in> set (drop 1 t)" for t
  proof -
    have "rems True (Cat (Grp 2 (LazyPlus Dot)) (Cat (Chr 0x24) (Opt (Grp 3 (Chr 0x24))))) t \<noteq> {}
      \<longleftrightarrow> (\<exists>u \<in> set (dots True t). \<exists>v. u = 0x24 # v)"
      using tail by (simp add: rems_Cat[of True "Grp 2 (LazyPlus Dot)"] rems_Grp rems_LazyPlus_Dot)
    then show ?thesis by (simp only: dots_starts_all)
  qed
  have opt: "rems True (Opt (Grp 1 (Chr 0x24))) xs = (case xs of [] \<Rightarrow> {} | y # ys \<Rightarrow> if y = 0x24 then {ys} else {}) \<union> {xs}"
    by (simp add: rems_Opt rems_Grp rems_Chr)
  have sub: "0x24 \<in> set (drop 1 ys) \<Longrightarrow> 0x24 \<in> set (drop 1 (y # ys))" for y :: jchar and ys :: jstring
    by (simp add: in_set_dropD)
  define B where "B = Cat (Grp 2 (LazyPlus Dot)) (Cat (Chr 0x24) (Opt (Grp 3 (Chr 0x24))))"
  have s1: "rems True latex_regex (x # xs) =
      (if x = 0x24 then rems True (Cat (Opt (Grp 1 (Chr 0x24))) B) xs else {})"
    unfolding latex_regex_def B_def[symmetric]
    by (simp add: rems_Cat rems_Chr)
  have s2: "rems True (Cat (Opt (Grp 1 (Chr 0x24))) B) xs =
      (case xs of [] \<Rightarrow> {} | y # ys \<Rightarrow> if y = 0x24 then rems True B ys else {}) \<union> rems True B xs"
    by (cases xs) (auto simp: rems_Cat rems_Opt rems_Grp rems_Chr)
  have "rems True latex_regex (x # xs) \<noteq> {} \<longleftrightarrow> x = 0x24 \<and> 0x24 \<in> set (drop 1 xs)"
    unfolding s1 s2 using body[folded B_def] sub by (auto split: list.splits)
  then show ?thesis using Cons by (simp add: run_nonempty_rems)
qed

lemma asciimath_regex_matches_at:
  "run d asciimath_regex s \<noteq> [] \<Longrightarrow> \<exists>xs. s = 0x60 # xs \<and> 0x60 \<in> set (drop 1 xs)"
  unfolding asciimath_regex_def run_delim_nonempty using dots_starts by blast

lemma asciimath_regex_matches_at_all:
  "run True asciimath_regex s \<noteq> [] \<longleftrightarrow> (\<exists>xs. s = 0x60 # xs \<and> 0x60 \<in> set (drop 1 xs))"
  unfolding asciimath_regex_def run_delim_nonempty using dots_starts_all by blast

lemma exec_None_iff: "exec d r s = None \<longleftrightarrow> (\<forall>k. run d r (drop k s) = [])"
proof (induction s)
  case Nil
  show ?case by (simp split: list.split)
next
  case (Cons x xs)
  have "(\<forall>k. run d r (drop k (x # xs)) = []) \<longleftrightarrow> run d r (x # xs) = [] \<and> (\<forall>k. run d r (drop k xs) = [])"
  proof
    assume a: "\<forall>k. run d r (drop k (x # xs)) = []"
    have "run d r (drop 0 (x # xs)) = []" using a by blast
    moreover have "run d r (drop k xs) = []" for k using a[rule_format, of "Suc k"] by simp
    ultimately show "run d r (x # xs) = [] \<and> (\<forall>k. run d r (drop k xs) = [])" by simp
  next
    assume a: "run d r (x # xs) = [] \<and> (\<forall>k. run d r (drop k xs) = [])"
    show "\<forall>k. run d r (drop k (x # xs)) = []"
    proof
      fix k show "run d r (drop k (x # xs)) = []" using a by (cases k) auto
    qed
  qed
  with Cons show ?case by (simp split: list.split)
qed


section \<open>The detectors\<close>

lemma has_latex_iff:
  "has_latex node \<longleftrightarrow>
     (\<exists>k xs. drop k (textContent node) = 0x24 # xs \<and> 0x24 \<in> set (drop 1 xs))"
  by (simp add: has_latex_def exec_None_iff latex_regex_matches_at)

lemma has_asciimath_iff:
  "has_asciimath node \<longleftrightarrow>
     (\<exists>k xs. drop k (textContent node) = 0x60 # xs \<and> 0x60 \<in> set (drop 1 xs))"
  by (simp add: has_asciimath_def exec_None_iff asciimath_regex_matches_at_all)

lemma pair_found:
  assumes "s = u @ [c] @ b @ [c] @ v" and "b \<noteq> []"
  shows "\<exists>k xs. drop k s = c # xs \<and> c \<in> set (drop 1 xs)"
proof -
  obtain b0 bs where b: "b = b0 # bs" using assms(2) by (cases b) auto
  have "drop (length u) s = c # (b @ [c] @ v)" using assms(1) by simp
  moreover have "c \<in> set (drop 1 (b @ [c] @ v))" using b by simp
  ultimately show ?thesis by blast
qed

lemma two_delims:
  assumes "drop k s = c # xs" and "c \<in> set (drop 1 xs)"
  shows "2 \<le> count_list s c"
proof -
  have "c \<in> set xs" using assms(2) by (meson in_set_dropD)
  then have "count_list xs c \<noteq> 0" by (simp add: count_list_0_iff)
  then have "2 \<le> count_list (drop k s) c" using assms(1) by simp
  moreover have "count_list (take k s @ drop k s) c = count_list (take k s) c + count_list (drop k s) c"
    by (rule count_list_append)
  ultimately show ?thesis by simp
qed

text \<open>
  Claim C7. A text that holds a delimiter, a non-empty body (of any characters, line
  terminators included) and a closing delimiter is detected: a \<open>$\<close> pair or a \<open>$$\<close> pair by
  \<open>has_latex\<close>, a backtick pair by \<open>has_asciimath\<close>. A text with at most one \<open>$\<close> (the empty
  text, a text without delimiter, a text with one stray \<open>$\<close>) is rejected by \<open>has_latex\<close>, and
  a text with at most one backtick by \<open>has_asciimath\<close>. Both detectors are total functions of
  the text of the node: they neither change anything nor raise.
\<close>

theorem detectors_correct:
  "(textContent node = u @ [0x24] @ b @ [0x24] @ v \<and> b \<noteq> [] \<longrightarrow> has_latex node) \<and>
   (textContent node = u @ [0x24, 0x24] @ b @ [0x24, 0x24] @ v \<and> b \<noteq> [] \<longrightarrow> has_latex node) \<and>
   (textContent node = u @ [0x60] @ b @ [0x60] @ v \<and> b \<noteq> [] \<longrightarrow> has_asciimath node) \<and>
   (count_list (textContent node) 0x24 \<le> 1 \<longrightarrow> \<not> has_latex node) \<and>
   (count_list (textContent node) 0x60 \<le> 1 \<longrightarrow> \<not> has_asciimath node)"
proof (intro conjI impI)
  assume a: "textContent node = u @ [0x24] @ b @ [0x24] @ v \<and> b \<noteq> []"
  have "\<exists>k xs. drop k (textContent node) = 0x24 # xs \<and> 0x24 \<in> set (drop 1 xs)"
    by (rule pair_found [of _ u _ b v]) (use a in simp_all)
  then show "has_latex node" by (simp only: has_latex_iff)
next
  assume a: "textContent node = u @ [0x24, 0x24] @ b @ [0x24, 0x24] @ v \<and> b \<noteq> []"
  have "\<exists>k xs. drop k (textContent node) = 0x24 # xs \<and> 0x24 \<in> set (drop 1 xs)"
    by (rule pair_found [of _ "u @ [0x24]" _ b "[0x24] @ v"]) (use a in simp_all)
  then show "has_latex node" by (simp only: has_latex_iff)
next
  assume a: "textContent node = u @ [0x60] @ b @ [0x60] @ v \<and> b \<noteq> []"
  have "\<exists>k xs. drop k (textContent node) = 0x60 # xs \<and> 0x60 \<in> set (drop 1 xs)"
    by (rule pair_found [of _ u _ b v]) (use a in simp_all)
  then show "has_asciimath node" by (simp only: has_asciimath_iff)
next
  assume a: "count_list (textContent node) 0x24 \<le> 1"
  show "\<not> has_latex node"
  proof
    assume "has_latex node"
    then obtain k xs where "drop k (textContent node) = 0x24 # xs" "0x24 \<in> set (drop 1 xs)"
      by (auto simp only: has_latex_iff)
    then have "2 \<le> count_list (textContent node) 0x24" by (rule two_delims)
    with a show False by simp
  qed
next
  assume a: "count_list (textContent node) 0x60 \<le> 1"
  show "\<not> has_asciimath node"
  proof
    assume "has_asciimath node"
    then obtain k xs where "drop k (textContent node) = 0x60 # xs" "0x60 \<in> set (drop 1 xs)"
      by (auto simp only: has_asciimath_iff)
    then have "2 \<le> count_list (textContent node) 0x60" by (rule two_delims)
    with a show False by simp
  qed
qed

theorem detectors_correct_witness:
  "has_latex (blank\<lparr>textContent := js ''a $x$ b''\<rparr>) \<and>
   has_latex (blank\<lparr>textContent := js ''$$x$$''\<rparr>) \<and>
   has_asciimath (blank\<lparr>textContent := js ''a `x` b''\<rparr>) \<and>
   \<not> has_latex (blank\<lparr>textContent := js ''5$ each''\<rparr>) \<and>
   \<not> has_asciimath (blank\<lparr>textContent := js ''a ` b''\<rparr>)"
  using detectors_correct [of "blank\<lparr>textContent := js ''a $x$ b''\<rparr>" "js ''a ''" "js ''x''" "js '' b''"]
        detectors_correct [of "blank\<lparr>textContent := js ''$$x$$''\<rparr>" "[]" "js ''x''" "[]"]
        detectors_correct [of "blank\<lparr>textContent := js ''a `x` b''\<rparr>" "js ''a ''" "js ''x''" "js '' b''"]
        detectors_correct [of "blank\<lparr>textContent := js ''5$ each''\<rparr>"]
        detectors_correct [of "blank\<lparr>textContent := js ''a ` b''\<rparr>"]
  by (simp add: js_def)


section \<open>The converter\<close>

lemma replaceAll_skip:
  "run d r (c # cs) = [] \<Longrightarrow>
   replaceAll d r f (c # cs) = (case replaceAll d r f cs of Inl e \<Rightarrow> Inl e | Inr t \<Rightarrow> Inr (c # t))"
  by (subst replaceAll.simps) simp

lemma replaceAll_nomatch:
  "(\<And>k. run d r (drop k s) = []) \<Longrightarrow> replaceAll d r f s = Inr s"
proof (induction s)
  case Nil
  have "run d r [] = []" using Nil [of 0] by simp
  then show ?case by (subst replaceAll.simps) simp
next
  case (Cons c cs)
  have "run d r (c # cs) = []" using Cons.prems [of 0] by simp
  moreover have "replaceAll d r f cs = Inr cs"
  proof (rule Cons.IH)
    fix k show "run d r (drop k cs) = []" using Cons.prems [of "Suc k"] by simp
  qed
  ultimately show ?case by (simp add: replaceAll_skip)
qed

lemma replaceAll_prefix:
  assumes "\<And>x r'. x \<in> set pre \<Longrightarrow> run d r (x # r') = []"
  shows "replaceAll d r f (pre @ s) =
     (case replaceAll d r f s of Inl e \<Rightarrow> Inl e | Inr t \<Rightarrow> Inr (pre @ t))"
  using assms
proof (induction pre)
  case Nil
  show ?case by (simp split: sum.split)
next
  case (Cons x xs)
  have "run d r (x # xs @ s) = []" using Cons.prems by simp
  then have "replaceAll d r f ((x # xs) @ s) =
     (case replaceAll d r f (xs @ s) of Inl e \<Rightarrow> Inl e | Inr t \<Rightarrow> Inr (x # t))"
    by (simp add: replaceAll_skip)
  also have "replaceAll d r f (xs @ s) =
     (case replaceAll d r f s of Inl e \<Rightarrow> Inl e | Inr t \<Rightarrow> Inr (xs @ t))"
    using Cons by simp
  finally show ?case by (simp split: sum.split)
qed

lemma replaceAll_match:
  assumes "run d r s = m # ms" and "length (snd m) < length s"
  shows "replaceAll d r f s =
     (case f (take (length s - length (snd m)) s) (fst m) of
        Inl e \<Rightarrow> Inl e
      | Inr rep \<Rightarrow> (case replaceAll d r f (snd m) of Inl e \<Rightarrow> Inl e | Inr t \<Rightarrow> Inr (rep @ t)))"
  using assms by (subst replaceAll.simps) (simp split: sum.split)

lemma first_delim:
  assumes "\<not> lineTerminator c" and "\<And>y. y \<in> set ys \<Longrightarrow> \<not> lineTerminator y \<and> y \<noteq> q"
    and "\<And>t. (\<And>r. t \<noteq> q # r) \<Longrightarrow> F t = []"
  shows "concat (map F (dots False (c # ys @ q # post))) =
         F (q # post) @ concat (map F (dots False (q # post)))"
  using assms(1,2)
proof (induction ys arbitrary: c)
  case Nil
  then show ?case by simp
next
  case (Cons y ys)
  have "F (y # ys @ q # post) = []"
  proof (rule assms(3))
    fix r show "y # ys @ q # post \<noteq> q # r" using Cons.prems(2) [of y] by simp
  qed
  moreover have "concat (map F (dots False (y # ys @ q # post))) =
         F (q # post) @ concat (map F (dots False (q # post)))"
    by (rule Cons.IH) (use Cons.prems in auto)
  ultimately show ?case using Cons.prems(1) by simp
qed

lemma asciimath_first_match:
  assumes "\<And>y. y \<in> set (c # ys) \<Longrightarrow> \<not> lineTerminator y" and "0x60 \<notin> set ys"
  shows "\<exists>ms. run False asciimath_regex (0x60 # c # ys @ 0x60 # post) = ([(1, c # ys)], post) # ms"
proof -
  let ?xs = "c # ys @ 0x60 # post"
  have "concat (map (pick 1 0x60 ?xs) (dots False ?xs)) =
        pick 1 0x60 ?xs (0x60 # post) @ concat (map (pick 1 0x60 ?xs) (dots False (0x60 # post)))"
  proof (rule first_delim)
    show "\<not> lineTerminator c" using assms(1) by simp
    show "\<not> lineTerminator y \<and> y \<noteq> 0x60" if "y \<in> set ys" for y
      using that assms by auto
    show "pick 1 0x60 ?xs t = []" if "\<And>r. t \<noteq> 0x60 # r" for t
      using that by (cases t) (auto simp: pick_def)
  qed
  moreover have "pick 1 0x60 ?xs (0x60 # post) = [([(1, c # ys)], post)]"
    by (simp add: pick_def)
  ultimately show ?thesis
    unfolding asciimath_regex_def run_delim by simp
qed

lemma asciimath_no_match_at:
  "x \<noteq> 0x60 \<Longrightarrow> run d asciimath_regex (x # r) = []"
  unfolding asciimath_regex_def run_delim by simp

text \<open>
  One step of the conversion: the text before the first backtick is copied, a backtick
  pair on one line is replaced by the translation of its body between single dollars, and
  the conversion goes on behind the closing backtick.
\<close>

lemma convert_to_latex_step:
  assumes "0x60 \<notin> set pre" and "\<And>y. y \<in> set (c # ys) \<Longrightarrow> \<not> lineTerminator y"
    and "0x60 \<notin> set ys"
  shows "convert_to_latex parse (pre @ 0x60 # c # ys @ 0x60 # post) =
     (case parse (c # ys) of
        Inl e \<Rightarrow> Inl e
      | Inr t \<Rightarrow> (case convert_to_latex parse post of
                    Inl e \<Rightarrow> Inl e
                  | Inr rest \<Rightarrow> Inr (pre @ [0x24] @ t @ [0x24] @ rest)))"
proof -
  obtain ms where m: "run False asciimath_regex (0x60 # c # ys @ 0x60 # post) = ([(1, c # ys)], post) # ms"
    using asciimath_first_match [OF assms(2,3)] by blast
  have pre: "run False asciimath_regex (x # r') = []" if "x \<in> set pre" for x r'
    using that assms(1) by (intro asciimath_no_match_at) auto
  show ?thesis
    unfolding convert_to_latex_def
    by (simp add: replaceAll_prefix [OF pre] replaceAll_match [OF m] split: sum.split)
qed

lemma convert_to_latex_identity:
  assumes "\<not> (\<exists>u b v. b \<noteq> [] \<and> s = u @ [0x60] @ b @ [0x60] @ v)"
  shows "convert_to_latex parse s = Inr s"
  unfolding convert_to_latex_def
proof (rule replaceAll_nomatch)
  fix k
  show "run False asciimath_regex (drop k s) = []"
  proof (rule ccontr)
    assume "run False asciimath_regex (drop k s) \<noteq> []"
    then obtain xs where xs: "drop k s = 0x60 # xs" "0x60 \<in> set (drop 1 xs)"
      using asciimath_regex_matches_at by blast
    then obtain x0 rest where x0: "xs = x0 # rest" by (cases xs) auto
    with xs have "0x60 \<in> set rest" by simp
    then obtain r1 r2 where "rest = r1 @ 0x60 # r2" by (meson split_list)
    with xs x0 have "s = take k s @ [0x60] @ (x0 # r1) @ [0x60] @ r2"
      by (metis append_Cons append_Nil append_take_drop_id)
    with assms show False by blast
  qed
qed

lemma convert_to_latex_no_backtick:
  assumes "0x60 \<notin> set s"
  shows "convert_to_latex parse s = Inr s"
proof (rule convert_to_latex_identity)
  show "\<not> (\<exists>u b v. b \<noteq> [] \<and> s = u @ [0x60] @ b @ [0x60] @ v)"
  proof
    assume "\<exists>u b v. b \<noteq> [] \<and> s = u @ [0x60] @ b @ [0x60] @ v"
    then obtain u b v where "s = u @ [0x60] @ b @ [0x60] @ v" by blast
    then have "0x60 \<in> set s" by simp
    with assms show False by simp
  qed
qed

lemma convert_to_latex_example:
  "convert_to_latex parse (js ''a `x^2` b'') =
     (case parse (js ''x^2'') of Inl e \<Rightarrow> Inl e | Inr t \<Rightarrow> Inr (js ''a $'' @ t @ js ''$ b''))"
proof -
  have nl: "\<not> lineTerminator y" if "y \<in> set (js ''x^2'')" for y
    using that by (auto simp: js_def lineTerminator_def)
  have "convert_to_latex parse (js ''a '' @ 0x60 # js ''x^2'' @ 0x60 # js '' b'') =
     (case parse (js ''x^2'') of
        Inl e \<Rightarrow> Inl e
      | Inr t \<Rightarrow> (case convert_to_latex parse (js '' b'') of
                    Inl e \<Rightarrow> Inl e
                  | Inr rest \<Rightarrow> Inr (js ''a '' @ [0x24] @ t @ [0x24] @ rest)))"
    using convert_to_latex_step [of "js ''a ''" "of_char CHR ''x''" "js ''^2''" parse "js '' b''"] nl
    by (simp add: js_def)
  moreover have "convert_to_latex parse (js '' b'') = Inr (js '' b'')"
    by (rule convert_to_latex_no_backtick) (simp add: js_def)
  ultimately show ?thesis by (simp add: js_def split: sum.split)
qed

text \<open>
  Claim C8 fails on a backtick pair that spans a line terminator: \<open>has_asciimath\<close> (flag \<open>s\<close>)
  reports AsciiMath in the text, and \<open>convert_to_latex\<close> (flags \<open>g\<close> only) returns it as
  it is, the parser never called.
\<close>

theorem convert_to_latex_misses_multiline:
  "has_asciimath (blank\<lparr>textContent := [0x60, 0x61, 0x0A, 0x62, 0x60]\<rparr>) \<and>
   convert_to_latex parse [0x60, 0x61, 0x0A, 0x62, 0x60] = Inr [0x60, 0x61, 0x0A, 0x62, 0x60]"
proof
  show "has_asciimath (blank\<lparr>textContent := [0x60, 0x61, 0x0A, 0x62, 0x60]\<rparr>)"
    unfolding has_asciimath_iff
    by (rule exI [of _ 0], rule exI [of _ "[0x61, 0x0A, 0x62, 0x60]"]) simp
next
  have "run False asciimath_regex (drop k [0x60, 0x61, 0x0A, 0x62, 0x60]) = []" for k
  proof -
    consider "k = 0" | "k = 1" | "k = 2" | "k = 3" | "k = 4" | "5 \<le> k" by linarith
    then show ?thesis
      by cases (simp_all add: asciimath_regex_def run_delim lineTerminator_def pick_def)
  qed
  then show "convert_to_latex parse [0x60, 0x61, 0x0A, 0x62, 0x60] = Inr [0x60, 0x61, 0x0A, 0x62, 0x60]"
    unfolding convert_to_latex_def by (rule replaceAll_nomatch)
qed


section \<open>The store of node records\<close>

lemma length_upd [simp]: "length (upd i f s) = length s"
  by (simp add: upd_def)

lemma deref_upd: "deref (upd i f s) j = (if j = i \<and> i < length s then f (deref s i) else deref s j)"
  by (simp add: upd_def deref_def)

lemma deref_append: "deref (s @ [r]) j = (if j = length s then r else deref s j)"
  by (simp add: deref_def nth_append)

lemma deref_fresh: "length s \<le> j \<Longrightarrow> deref s j = blank"
  by (simp add: deref_def)

lemma blank_fields [simp]:
  "tagName blank = None" "classList blank = []" "parentElement blank = None"
  "childNodes blank = []"
  by (simp_all add: blank_def)

subsection \<open>Sibling lists\<close>

lemma next_after_in: "next_after p K = Some x \<Longrightarrow> x \<in> set K \<and> p \<in> set K"
  by (induction K) (auto split: if_splits list.splits)

lemma next_after_neq: "distinct K \<Longrightarrow> next_after p K = Some x \<Longrightarrow> x \<noteq> p"
  by (induction K) (auto split: if_splits list.splits)

lemma next_after_following:
  "next_after p K = (case drop 1 (dropWhile (\<lambda>x. x \<noteq> p) K) of [] \<Rightarrow> None | y # _ \<Rightarrow> Some y)"
  by (induction K) (auto split: list.splits)

lemma following_remove1:
  "distinct K \<Longrightarrow> drop 1 (dropWhile (\<lambda>x. x \<noteq> p) K) = y # r \<Longrightarrow>
   drop 1 (dropWhile (\<lambda>x. x \<noteq> p) (remove1 y K)) = r"
proof (induction K)
  case Nil
  then show ?case by simp
next
  case (Cons a K)
  show ?case
  proof (cases "a = p")
    case True
    with Cons.prems have "K = y # r" by simp
    with True Cons.prems show ?thesis by auto
  next
    case False
    with Cons.prems have f: "drop 1 (dropWhile (\<lambda>x. x \<noteq> p) K) = y # r" by simp
    then have "y \<in> set K"
      by (metis in_set_dropD list.set_intros(1) set_dropWhileD)
    with Cons.prems(1) have "a \<noteq> y" by auto
    with False Cons.IH f Cons.prems(1) show ?thesis by simp
  qed
qed

lemma following_insert_after:
  "p \<in> set K \<Longrightarrow>
   drop 1 (dropWhile (\<lambda>x. x \<noteq> p) (insert_after p c K)) = c # drop 1 (dropWhile (\<lambda>x. x \<noteq> p) K)"
  by (induction K) auto

lemma set_insert_after: "p \<in> set K \<Longrightarrow> set (insert_after p c K) = insert c (set K)"
  by (induction K) auto

lemma set_insert_after_subset: "set (insert_after p c K) \<subseteq> insert c (set K)"
  by (induction K) auto

lemma distinct_insert_after: "distinct K \<Longrightarrow> c \<notin> set K \<Longrightarrow> distinct (insert_after p c K)"
proof (induction K)
  case Nil
  show ?case by simp
next
  case (Cons a K)
  have "a \<notin> set (insert_after p c K)"
    using set_insert_after_subset [of p c K] Cons.prems by auto
  with Cons show ?case by auto
qed

lemma following_subset: "set (drop 1 (dropWhile (\<lambda>x. x \<noteq> p) K)) \<subseteq> set K"
  by (meson in_set_dropD set_dropWhileD subsetI)

lemma following_not_self: "distinct K \<Longrightarrow> p \<notin> set (drop 1 (dropWhile (\<lambda>x. x \<noteq> p) K))"
  by (induction K) auto


subsection \<open>Single operations\<close>

lemma deref_upd_other: "x \<noteq> i \<Longrightarrow> deref (upd i f s) x = deref s x"
  by (simp add: deref_upd)

lemma deref_upd_same: "i < length s \<Longrightarrow> deref (upd i f s) i = f (deref s i)"
  by (simp add: deref_upd)

lemma classList_add_length [simp]: "length (classList_add i c s) = length s"
  by (simp add: classList_add_def)

lemma classList_add_other: "x \<noteq> i \<Longrightarrow> deref (classList_add i c s) x = deref s x"
  by (simp add: classList_add_def deref_upd)

lemma classList_add_fields:
  "tagName (deref (classList_add i c s) x) = tagName (deref s x)"
  "parentElement (deref (classList_add i c s) x) = parentElement (deref s x)"
  "childNodes (deref (classList_add i c s) x) = childNodes (deref s x)"
  "textContent (deref (classList_add i c s) x) = textContent (deref s x)"
  "innerHTML (deref (classList_add i c s) x) = innerHTML (deref s x)"
  by (simp_all add: classList_add_def deref_upd)

lemma classList_add_mono:
  "k \<in> set (classList (deref s x)) \<Longrightarrow> k \<in> set (classList (deref (classList_add i c s) x))"
  by (auto simp: classList_add_def deref_upd)

lemma classList_remove_length [simp]: "length (classList_remove i c s) = length s"
  by (simp add: classList_remove_def)

lemma classList_remove_other: "x \<noteq> i \<Longrightarrow> deref (classList_remove i c s) x = deref s x"
  by (simp add: classList_remove_def deref_upd)

lemma classList_remove_fields:
  "tagName (deref (classList_remove i c s) x) = tagName (deref s x)"
  "parentElement (deref (classList_remove i c s) x) = parentElement (deref s x)"
  "childNodes (deref (classList_remove i c s) x) = childNodes (deref s x)"
  "textContent (deref (classList_remove i c s) x) = textContent (deref s x)"
  "innerHTML (deref (classList_remove i c s) x) = innerHTML (deref s x)"
  by (simp_all add: classList_remove_def deref_upd)

lemma set_style_length [simp]: "length (set_style i k v s) = length s"
  by (simp add: set_style_def)

lemma set_style_fields:
  "tagName (deref (set_style i k v s) x) = tagName (deref s x)"
  "parentElement (deref (set_style i k v s) x) = parentElement (deref s x)"
  "childNodes (deref (set_style i k v s) x) = childNodes (deref s x)"
  "classList (deref (set_style i k v s) x) = classList (deref s x)"
  "textContent (deref (set_style i k v s) x) = textContent (deref s x)"
  "innerHTML (deref (set_style i k v s) x) = innerHTML (deref s x)"
  by (simp_all add: set_style_def deref_upd)

lemma run_handler_length [simp]: "length (run_handler h s) = length s"
  by (cases h) simp_all

lemma run_handler_fields:
  "tagName (deref (run_handler h s) x) = tagName (deref s x)"
  "parentElement (deref (run_handler h s) x) = parentElement (deref s x)"
  "childNodes (deref (run_handler h s) x) = childNodes (deref s x)"
  "classList (deref (run_handler h s) x) = classList (deref s x)"
  "textContent (deref (run_handler h s) x) = textContent (deref s x)"
  "innerHTML (deref (run_handler h s) x) = innerHTML (deref s x)"
  by (cases h; simp add: set_style_fields)+

lemma set_innerHTML_length [simp]: "length (set_innerHTML E i h s) = length s"
  by (simp add: set_innerHTML_def)

lemma set_innerHTML_other: "x \<noteq> i \<Longrightarrow> deref (set_innerHTML E i h s) x = deref s x"
  by (simp add: set_innerHTML_def deref_upd)

lemma set_innerHTML_fields:
  "tagName (deref (set_innerHTML E i h s) x) = tagName (deref s x)"
  "parentElement (deref (set_innerHTML E i h s) x) = parentElement (deref s x)"
  "childNodes (deref (set_innerHTML E i h s) x) = childNodes (deref s x)"
  "classList (deref (set_innerHTML E i h s) x) = classList (deref s x)"
  by (simp_all add: set_innerHTML_def deref_upd)

lemma renderMathInElement_length [simp]: "length (renderMathInElement E i s) = length s"
  by (simp add: renderMathInElement_def)

lemma renderMathInElement_other: "x \<noteq> i \<Longrightarrow> deref (renderMathInElement E i s) x = deref s x"
  by (simp add: renderMathInElement_def set_innerHTML_other)

lemma renderMathInElement_fields:
  "tagName (deref (renderMathInElement E i s) x) = tagName (deref s x)"
  "parentElement (deref (renderMathInElement E i s) x) = parentElement (deref s x)"
  "childNodes (deref (renderMathInElement E i s) x) = childNodes (deref s x)"
  "classList (deref (renderMathInElement E i s) x) = classList (deref s x)"
  by (simp_all add: renderMathInElement_def set_innerHTML_fields)

lemma remove_node_detached: "parentElement (deref s x) = None \<Longrightarrow> remove_node x s = s"
  by (simp add: remove_node_def)

lemma insertAdjacentElement_length [simp]: "length (insertAdjacentElement_afterend p c s) = length s"
  by (simp add: insertAdjacentElement_afterend_def remove_node_def split: option.split)

lemma insertAdjacentElement_fresh:
  assumes "parentElement (deref s p) = Some g" and "parentElement (deref s c) = None"
    and "c \<noteq> g" and "g < length s" and "c < length s"
  shows "deref (insertAdjacentElement_afterend p c s) x =
     (if x = c then (deref s c)\<lparr>parentElement := Some g\<rparr>
      else if x = g then (deref s g)\<lparr>childNodes := insert_after p c (childNodes (deref s g))\<rparr>
      else deref s x)"
  using assms by (simp add: insertAdjacentElement_afterend_def remove_node_detached deref_upd)

subsection \<open>What the steps of \<open>handle_node\<close> change\<close>

lemma remove_node_fields:
  assumes "parentElement (deref s x) = Some g" and "x \<noteq> g" and "x < length s" and "g < length s"
  shows "length (remove_node x s) = length s"
    and "\<And>y. tagName (deref (remove_node x s) y) = tagName (deref s y)"
    and "\<And>y. classList (deref (remove_node x s) y) = classList (deref s y)"
    and "\<And>y. textContent (deref (remove_node x s) y) = textContent (deref s y)"
    and "\<And>y. innerHTML (deref (remove_node x s) y) = innerHTML (deref s y)"
    and "\<And>y. parentElement (deref (remove_node x s) y) =
            (if y = x then None else parentElement (deref s y))"
    and "\<And>y. childNodes (deref (remove_node x s) y) =
            (if y = g then remove1 x (childNodes (deref s g)) else childNodes (deref s y))"
  using assms by (simp_all add: remove_node_def deref_upd)

lemma stale_facts:
  assumes "wf_at s node" and "parentElement (deref s node) = Some p"
    and "parentElement (deref s p) = Some g" and "stale s p = Some sib"
  shows "sib \<in> set (childNodes (deref s g))" and "sib \<noteq> p" and "sib \<noteq> node" and "sib \<noteq> g"
    and "sib < length s" and "parentElement (deref s sib) = Some g" and "is_container s sib"
    and "\<exists>r. following s p = sib # r"
proof -
  let ?K = "childNodes (deref s g)"
  from assms(1-3) have wf: "node \<noteq> p" "p \<noteq> g" "node \<noteq> g" "distinct ?K"
    "\<And>x. x \<in> set ?K \<Longrightarrow> x < length s \<and> x \<noteq> g \<and> parentElement (deref s x) = Some g"
    by (auto simp: wf_at_def)
  from assms(4) have ns: "nextSibling s p = Some sib" and "is_container s sib"
    by (auto simp: stale_def split: option.splits if_splits)
  then show "is_container s sib" by simp
  from ns assms(3) have na: "next_after p ?K = Some sib" by (simp add: nextSibling_def)
  then show sibK: "sib \<in> set ?K" using next_after_in by blast
  show "sib \<noteq> p" using next_after_neq [OF wf(4) na] .
  have "node \<notin> set ?K" using wf(5) [of node] assms(2) wf(2) by auto
  with sibK show "sib \<noteq> node" by auto
  from wf(5) [OF sibK] show "sib \<noteq> g" "sib < length s" "parentElement (deref s sib) = Some g"
    by auto
  from na show "\<exists>r. following s p = sib # r"
    by (auto simp: following_def assms(3) next_after_following split: list.splits)
qed

lemma removal_frame_refl: "stale s p = None \<Longrightarrow> removal_frame s node p g s"
  by (simp add: removal_frame_def)

lemma remove_stale_cases:
  assumes "remove_stale node p s = r"
  shows "(stale s p = None \<and> (r = Inr s \<or> r = Inl (TypeError, s))) \<or>
         (\<exists>sib. stale s p = Some sib \<and>
            r = Inr (classList_remove p ''has-latex''
                      (classList_remove node ''has-latex'' (remove_node sib s))))"
  using assms
  by (auto simp: remove_stale_def stale_def is_container_def split: option.splits)

lemma remove_stale_030_cases:
  assumes "remove_stale_030 node p s = r"
  shows "(stale s p = None \<and> (r = Inr s \<or> r = Inl (TypeError, s))) \<or>
         (\<exists>sib. stale s p = Some sib \<and>
            r = Inr (upd p (\<lambda>r. r\<lparr>onfocus := None, onblur := None\<rparr>) (remove_node sib s)))"
  using assms
  by (auto simp: remove_stale_030_def stale_def is_container_def split: option.splits)

lemma remove_stale_effect:
  assumes "wf_at s node" and "parentElement (deref s node) = Some p"
    and "parentElement (deref s p) = Some g"
    and "remove_stale node p s = Inr s' \<or> remove_stale node p s = Inl (e, s')"
  shows "removal_frame s node p g s'"
proof -
  from assms(1-3) have wf: "g < length s" by (auto simp: wf_at_def)
  consider (same) "stale s p = None" "s' = s"
    | (drop) sib where "stale s p = Some sib"
        "s' = classList_remove p ''has-latex''
               (classList_remove node ''has-latex'' (remove_node sib s))"
    using assms(4) remove_stale_cases [of node p s] by fastforce
  then show ?thesis
  proof cases
    case same
    then show ?thesis by (simp add: removal_frame_refl)
  next
    case drop
    note sf = stale_facts [OF assms(1-3) drop(1)]
    note rn = remove_node_fields [OF sf(6) sf(4) sf(5) wf]
    show ?thesis
      unfolding drop(2) removal_frame_def using drop(1)
      by (simp add: classList_remove_fields classList_remove_other rn)
  qed
qed

lemma remove_stale_030_effect:
  assumes "wf_at s node" and "parentElement (deref s node) = Some p"
    and "parentElement (deref s p) = Some g"
    and "remove_stale_030 node p s = Inr s' \<or> remove_stale_030 node p s = Inl (e, s')"
  shows "removal_frame s node p g s'"
proof -
  from assms(1-3) have wf: "g < length s" by (auto simp: wf_at_def)
  consider (same) "stale s p = None" "s' = s"
    | (drop) sib where "stale s p = Some sib"
        "s' = upd p (\<lambda>r. r\<lparr>onfocus := None, onblur := None\<rparr>) (remove_node sib s)"
    using assms(4) remove_stale_030_cases [of node p s] by fastforce
  then show ?thesis
  proof cases
    case same
    then show ?thesis by (simp add: removal_frame_refl)
  next
    case drop
    note sf = stale_facts [OF assms(1-3) drop(1)]
    note rn = remove_node_fields [OF sf(6) sf(4) sf(5) wf]
    define t where "t = remove_node sib s"
    have keep: "tagName (deref (upd p (\<lambda>r. r\<lparr>onfocus := None, onblur := None\<rparr>) t) x) = tagName (deref t x)"
      "textContent (deref (upd p (\<lambda>r. r\<lparr>onfocus := None, onblur := None\<rparr>) t) x) = textContent (deref t x)"
      "innerHTML (deref (upd p (\<lambda>r. r\<lparr>onfocus := None, onblur := None\<rparr>) t) x) = innerHTML (deref t x)"
      "classList (deref (upd p (\<lambda>r. r\<lparr>onfocus := None, onblur := None\<rparr>) t) x) = classList (deref t x)"
      "parentElement (deref (upd p (\<lambda>r. r\<lparr>onfocus := None, onblur := None\<rparr>) t) x) = parentElement (deref t x)"
      "childNodes (deref (upd p (\<lambda>r. r\<lparr>onfocus := None, onblur := None\<rparr>) t) x) = childNodes (deref t x)"
      for x
      by (simp_all add: deref_upd)
    show ?thesis
      unfolding drop(2) removal_frame_def t_def [symmetric] using drop(1)
      by (simp add: keep) (simp add: t_def rn)
  qed
qed

text \<open>
  After the removal the local shape is kept, and the following siblings are those of the
  page without the stale container.
\<close>

lemma after_removal:
  assumes "wf_at s node" and "parentElement (deref s node) = Some p"
    and "parentElement (deref s p) = Some g" and "removal_frame s node p g s'"
  shows "wf_at s' node" and "parentElement (deref s' node) = Some p"
    and "parentElement (deref s' p) = Some g"
    and "following s' p = drop_stale s (following s p)"
proof -
  let ?K = "childNodes (deref s g)"
  from assms(1-3) have wf: "node \<noteq> p" "p \<noteq> g" "node \<noteq> g" "node < length s" "p < length s"
    "g < length s" "distinct ?K" "p \<in> set ?K"
    "\<And>x. x \<in> set ?K \<Longrightarrow> x < length s \<and> x \<noteq> g \<and> parentElement (deref s x) = Some g"
    by (auto simp: wf_at_def)
  from assms(4) have fr: "length s' = length s"
    "\<And>x. parentElement (deref s' x) =
            (if stale s p = Some x then None else parentElement (deref s x))"
    "\<And>x. childNodes (deref s' x) =
            (case stale s p of None \<Rightarrow> childNodes (deref s x)
             | Some sib \<Rightarrow> if x = g then remove1 sib (childNodes (deref s g))
                           else childNodes (deref s x))"
    by (simp_all add: removal_frame_def)
  have ns: "nextSibling s p = (case following s p of [] \<Rightarrow> None | y # _ \<Rightarrow> Some y)"
    by (simp add: nextSibling_def following_def assms(3) next_after_following)
  have "wf_at s' node \<and> parentElement (deref s' node) = Some p \<and>
      parentElement (deref s' p) = Some g \<and> following s' p = drop_stale s (following s p)"
  proof (cases "stale s p")
    case None
    then have "drop_stale s (following s p) = following s p"
      using ns by (auto simp: stale_def drop_stale_def split: list.splits if_splits)
    with None assms(1-3) fr wf show ?thesis
      by (auto simp: wf_at_def following_def)
  next
    case (Some sib)
    note sf = stale_facts [OF assms(1-3) Some]
    from sf(8) obtain r where r: "following s p = sib # r" by blast
    have K': "childNodes (deref s' g) = remove1 sib ?K" using fr(3) [of g] Some by simp
    have par: "parentElement (deref s' node) = Some p" "parentElement (deref s' p) = Some g"
      using fr(2) [of node] fr(2) [of p] Some sf(2,3) assms(2,3) by auto
    have "drop 1 (dropWhile (\<lambda>x. x \<noteq> p) (remove1 sib ?K)) = r"
      using wf(7) r by (intro following_remove1) (simp_all add: following_def assms(3))
    then have "following s' p = r" by (simp add: following_def par K')
    moreover have "drop_stale s (following s p) = r" using r sf(7) by (simp add: drop_stale_def)
    moreover have "wf_at s' node"
    proof -
      have "distinct (remove1 sib ?K)" using wf(7) by simp
      moreover have "p \<in> set (remove1 sib ?K)" using wf(8) sf(2) by simp
      moreover have "x < length s \<and> x \<noteq> g \<and> parentElement (deref s' x) = Some g"
        if "x \<in> set (remove1 sib ?K)" for x
      proof -
        have "x \<noteq> sib" using that wf(7) by auto
        moreover have "x \<in> set ?K" using that by (meson notin_set_remove1)
        ultimately show ?thesis using wf(9) [of x] fr(2) [of x] Some by simp
      qed
      ultimately show ?thesis
        unfolding wf_at_def using par K' wf(1-6) fr(1) by auto
    qed
    ultimately show ?thesis using par by simp
  qed
  then show "wf_at s' node" and "parentElement (deref s' node) = Some p"
    and "parentElement (deref s' p) = Some g"
    and "following s' p = drop_stale s (following s p)" by blast+
qed

lemma after_insertion:
  assumes "wf_at s node" and "parentElement (deref s node) = Some p"
    and "parentElement (deref s p) = Some g" and "insertion_frame s node p g s'"
  shows "wf_at s' node" and "parentElement (deref s' node) = Some p"
    and "parentElement (deref s' p) = Some g"
    and "following s' p = length s # following s p"
proof -
  let ?K = "childNodes (deref s g)"
  from assms(1-3) have wf: "node \<noteq> p" "p \<noteq> g" "node \<noteq> g" "node < length s" "p < length s"
    "g < length s" "distinct ?K" "p \<in> set ?K"
    "\<And>x. x \<in> set ?K \<Longrightarrow> x < length s \<and> x \<noteq> g \<and> parentElement (deref s x) = Some g"
    by (auto simp: wf_at_def)
  from assms(4) have fr: "length s' = Suc (length s)"
    "\<And>x. parentElement (deref s' x) = (if x = length s then Some g else parentElement (deref s x))"
    "\<And>x. x \<noteq> length s \<Longrightarrow> childNodes (deref s' x) =
            (if x = g then insert_after p (length s) ?K else childNodes (deref s x))"
    by (simp_all add: insertion_frame_def)
  have cK: "length s \<notin> set ?K" using wf(9) by auto
  show par: "parentElement (deref s' node) = Some p" "parentElement (deref s' p) = Some g"
    using fr(2) [of node] fr(2) [of p] wf(4,5) assms(2,3) by simp_all
  have K': "childNodes (deref s' g) = insert_after p (length s) ?K"
    using fr(3) [of g] wf(6) by simp
  show "following s' p = length s # following s p"
    using following_insert_after [OF wf(8)] by (simp add: following_def par assms(3) K')
  have "distinct (insert_after p (length s) ?K)" using wf(7) cK by (rule distinct_insert_after)
  moreover have "set (insert_after p (length s) ?K) = insert (length s) (set ?K)"
    using wf(8) by (rule set_insert_after)
  moreover have "x < Suc (length s) \<and> x \<noteq> g \<and> parentElement (deref s' x) = Some g"
    if "x \<in> insert (length s) (set ?K)" for x
  proof (cases "x = length s")
    case True
    with fr(2) [of x] wf(6) show ?thesis by simp
  next
    case False
    with that have "x \<in> set ?K" by simp
    with False fr(2) [of x] wf(9) [of x] show ?thesis by simp
  qed
  ultimately show "wf_at s' node"
    unfolding wf_at_def using wf(1-6) wf(8) fr(1) par K' by (auto simp: less_Suc_eq)
qed

lemma insert_container_effect:
  assumes "wf_at s node" and "parentElement (deref s node) = Some p"
    and "parentElement (deref s p) = Some g" and "insert_container E node p s = Inr s'"
  shows "insertion_frame s node p g s'"
proof -
  let ?K = "childNodes (deref s g)"
  define c where "c = length s"
  from assms(1-3) have wf: "node \<noteq> p" "p \<noteq> g" "node \<noteq> g" "node < length s" "p < length s"
    "g < length s"
    by (auto simp: wf_at_def)
  have ne: "node \<noteq> c" "p \<noteq> c" "g \<noteq> c" using wf(4-6) by (simp_all add: c_def)
  define isnote where "isnote = (''notes'' \<in> set (classList (deref s g)))"
  define s2 where "s2 = classList_add p ''has-latex'' (classList_add node ''has-latex'' s)"
  define s3 where "s3 = s2 @ [blank\<lparr>tagName := Some ''div''\<rparr>]"
  obtain html where html: "convert_to_latex (asciimath_parse E) (innerHTML (deref s3 node)) = Inr html"
    using assms(3,4)
    by (auto simp: insert_container_def createElement_def Let_def s2_def s3_def split: sum.splits)
  define s5 where "s5 = upd c (\<lambda>r. r\<lparr>classList := [''rendered-latex'']\<rparr>) (set_innerHTML E c html s3)"
  define s6 where "s6 = insertAdjacentElement_afterend p c s5"
  define s8 where "s8 = classList_add c (classList_item (deref (classList_add c (classList_item (deref s6 p) 1) s6) p) 2)
       (classList_add c (classList_item (deref s6 p) 1) s6)"
  define s9 where "s9 = (if isnote
       then upd p (\<lambda>r. r\<lparr>onfocus := Some (NoteFocus p), onblur := Some (NoteBlur p)\<rparr>) s8 else s8)"
  define s11 where "s11 = (if isnote then run_handler (NoteBlur p) (renderMathInElement E c s9)
       else renderMathInElement E c s9)"
  have s': "s' = upd c (\<lambda>r. r\<lparr>listeners := listeners r @ [(''click'', ClickFocus p)]\<rparr>) s11"
  proof -
    have "insert_container E node p s =
        Inr (upd c (\<lambda>r. r\<lparr>listeners := listeners r @ [(''click'', ClickFocus p)]\<rparr>) s11)"
      unfolding s11_def s9_def s8_def s6_def s5_def
      using html unfolding s3_def s2_def isnote_def c_def
      by (simp add: insert_container_def createElement_def Let_def assms(3))
    with assms(4) show ?thesis by simp
  qed
  have len2: "length s2 = length s" by (simp add: s2_def)
  have d2: "tagName (deref s2 x) = tagName (deref s x)"
    "parentElement (deref s2 x) = parentElement (deref s x)"
    "childNodes (deref s2 x) = childNodes (deref s x)"
    "textContent (deref s2 x) = textContent (deref s x)" for x
    by (simp_all add: s2_def classList_add_fields)
  have c2: "classList (deref s2 x) = classList (deref s x)" if "x \<noteq> node" "x \<noteq> p" for x
    using that by (simp add: s2_def classList_add_other)
  have len3: "length s3 = Suc (length s)" by (simp add: s3_def len2)
  have len5: "length s5 = Suc (length s)" by (simp add: s5_def len3)
  have len6: "length s6 = Suc (length s)" by (simp add: s6_def len5)
  have len8: "length s8 = Suc (length s)" by (simp add: s8_def len6)
  have len9: "length s9 = Suc (length s)" by (simp add: s9_def len8)
  have len11: "length s11 = Suc (length s)" by (simp add: s11_def len9)
  have len: "length s' = Suc (length s)" by (simp add: s' len11)
  have d3: "deref s3 x = (if x = c then blank\<lparr>tagName := Some ''div''\<rparr> else deref s2 x)" for x
    by (simp add: s3_def deref_append len2 c_def)
  have d5o: "deref s5 x = deref s3 x" if "x \<noteq> c" for x
    using that by (simp add: s5_def deref_upd_other set_innerHTML_other)
  have d5c: "tagName (deref s5 c) = Some ''div''" "parentElement (deref s5 c) = None"
    "childNodes (deref s5 c) = []" "classList (deref s5 c) = [''rendered-latex'']"
    by (simp_all add: s5_def deref_upd len3 c_def set_innerHTML_fields d3 [unfolded c_def])
  have p5: "parentElement (deref s5 p) = Some g"
    using ne assms(3) by (simp add: d5o d3 d2)
  have d6: "deref s6 x =
     (if x = c then (deref s5 c)\<lparr>parentElement := Some g\<rparr>
      else if x = g then (deref s5 g)\<lparr>childNodes := insert_after p c (childNodes (deref s5 g))\<rparr>
      else deref s5 x)" for x
    unfolding s6_def
    by (rule insertAdjacentElement_fresh [OF p5 d5c(2)]) (use ne wf(6) in \<open>simp_all add: len5 c_def\<close>)
  have d8o: "deref s8 x = deref s6 x" if "x \<noteq> c" for x
    using that by (simp add: s8_def classList_add_other)
  have d8c: "tagName (deref s8 c) = Some ''div''" "parentElement (deref s8 c) = Some g"
    "childNodes (deref s8 c) = []" "''rendered-latex'' \<in> set (classList (deref s8 c))"
    by (simp_all add: s8_def classList_add_fields classList_add_mono d6 d5c)
  have d9: "tagName (deref s9 x) = tagName (deref s8 x)"
    "parentElement (deref s9 x) = parentElement (deref s8 x)"
    "childNodes (deref s9 x) = childNodes (deref s8 x)"
    "classList (deref s9 x) = classList (deref s8 x)"
    "textContent (deref s9 x) = textContent (deref s8 x)" for x
    by (simp_all add: s9_def deref_upd)
  have d11: "tagName (deref s11 x) = tagName (deref s9 x)"
    "parentElement (deref s11 x) = parentElement (deref s9 x)"
    "childNodes (deref s11 x) = childNodes (deref s9 x)"
    "classList (deref s11 x) = classList (deref s9 x)" for x
    by (simp_all add: s11_def set_style_fields renderMathInElement_fields)
  have t11: "textContent (deref s11 x) = textContent (deref s9 x)" if "x \<noteq> c" for x
    using that by (simp add: s11_def set_style_fields renderMathInElement_other)
  have d': "tagName (deref s' x) = tagName (deref s11 x)"
    "parentElement (deref s' x) = parentElement (deref s11 x)"
    "childNodes (deref s' x) = childNodes (deref s11 x)"
    "classList (deref s' x) = classList (deref s11 x)"
    "textContent (deref s' x) = textContent (deref s11 x)" for x
    by (simp_all add: s' deref_upd)
  have old: "tagName (deref s' x) = tagName (deref s x)"
    "parentElement (deref s' x) = parentElement (deref s x)"
    "textContent (deref s' x) = textContent (deref s x)" if "x \<noteq> c" for x
    using that by (simp_all add: d' d11 t11 d9 d8o d6 d5o d3 d2)
  have kids: "childNodes (deref s' x) = (if x = g then insert_after p c ?K else childNodes (deref s x))"
    if "x \<noteq> c" for x
    using that by (simp add: d' d11 d9 d8o d6 d5o d3 d2 ne)
  have new: "tagName (deref s' c) = Some ''div''" "parentElement (deref s' c) = Some g"
    "''rendered-latex'' \<in> set (classList (deref s' c))"
    by (simp_all add: d' d11 d9 d8c)
  have cls: "classList (deref s' x) = classList (deref s x)"
    if "x \<noteq> node" "x \<noteq> p" "x \<noteq> c" for x
    using that by (simp add: d' d11 d9 d8o d6 d5o d3 c2)
  have tag: "tagName (deref s' x) = (if x = c then Some ''div'' else tagName (deref s x))" for x
    using old(1) [of x] new(1) by simp
  have par: "parentElement (deref s' x) = (if x = c then Some g else parentElement (deref s x))" for x
    using old(2) [of x] new(2) by simp
  have tx: "textContent (deref s' node) = textContent (deref s node)"
    using old(3) [of node] ne by simp
  show ?thesis
    unfolding insertion_frame_def
    using len tag tx cls new(3) par kids unfolding c_def by blast
qed

lemma insert_container_raises:
  assumes "parentElement (deref s p) = Some g" and "insert_container E node p s = Inl (e, s')"
  shows "\<And>x. x < length s \<Longrightarrow> tagName (deref s' x) = tagName (deref s x)"
    and "\<And>x. x < length s \<Longrightarrow> parentElement (deref s' x) = parentElement (deref s x)"
    and "\<And>x. x < length s \<Longrightarrow> childNodes (deref s' x) = childNodes (deref s x)"
proof -
  have "s' = classList_add p ''has-latex'' (classList_add node ''has-latex'' s) @ [blank\<lparr>tagName := Some ''div''\<rparr>]"
    using assms by (auto simp: insert_container_def createElement_def Let_def split: sum.splits)
  then show "\<And>x. x < length s \<Longrightarrow> tagName (deref s' x) = tagName (deref s x)"
    and "\<And>x. x < length s \<Longrightarrow> parentElement (deref s' x) = parentElement (deref s x)"
    and "\<And>x. x < length s \<Longrightarrow> childNodes (deref s' x) = childNodes (deref s x)"
    by (simp_all add: deref_append classList_add_fields)
qed

lemma insert_container_030_effect:
  assumes "wf_at s node" and "parentElement (deref s node) = Some p"
    and "parentElement (deref s p) = Some g" and "insert_container_030 E node p s = Inr s'"
  shows "insertion_frame s node p g s'"
proof -
  let ?K = "childNodes (deref s g)"
  define c where "c = length s"
  from assms(1-3) have wf: "node \<noteq> p" "p \<noteq> g" "node \<noteq> g" "node < length s" "p < length s"
    "g < length s"
    by (auto simp: wf_at_def)
  have ne: "node \<noteq> c" "p \<noteq> c" "g \<noteq> c" using wf(4-6) by (simp_all add: c_def)
  define s2 where "s2 = s"
  define s3 where "s3 = s2 @ [blank\<lparr>tagName := Some ''div''\<rparr>]"
  obtain html where html: "convert_to_latex (asciimath_parse E) (innerHTML (deref s3 node)) = Inr html"
    using assms(3,4)
    by (auto simp: insert_container_030_def createElement_def Let_def s2_def s3_def split: sum.splits)
  define s5 where "s5 = upd c (\<lambda>r. r\<lparr>classList := [''rendered-latex'']\<rparr>) (set_innerHTML E c html s3)"
  define s6 where "s6 = insertAdjacentElement_afterend p c s5"
  define s8 where "s8 = classList_add c (classList_item (deref (classList_add c (classList_item (deref s6 p) 1) s6) p) 2)
       (classList_add c (classList_item (deref s6 p) 1) s6)"
  define s9 where "s9 = upd p (\<lambda>r. r\<lparr>onfocus := Some (ToggleFocus p c node),
       onblur := Some (ToggleBlur p c node)\<rparr>) s8"
  define s11 where "s11 = run_handler (ToggleBlur p c node) (renderMathInElement E c s9)"
  have s': "s' = upd c (\<lambda>r. r\<lparr>listeners := listeners r @ [(''click'', ClickFocus p)]\<rparr>) s11"
  proof -
    have "insert_container_030 E node p s =
        Inr (upd c (\<lambda>r. r\<lparr>listeners := listeners r @ [(''click'', ClickFocus p)]\<rparr>) s11)"
      unfolding s11_def s9_def s8_def s6_def s5_def
      using html unfolding s3_def s2_def c_def
      by (simp add: insert_container_030_def createElement_def Let_def assms(3))
    with assms(4) show ?thesis by simp
  qed
  have len2: "length s2 = length s" by (simp add: s2_def)
  have d2: "tagName (deref s2 x) = tagName (deref s x)"
    "parentElement (deref s2 x) = parentElement (deref s x)"
    "childNodes (deref s2 x) = childNodes (deref s x)"
    "textContent (deref s2 x) = textContent (deref s x)" for x
    by (simp_all add: s2_def)
  have c2: "classList (deref s2 x) = classList (deref s x)" for x
    by (simp add: s2_def)
  have len3: "length s3 = Suc (length s)" by (simp add: s3_def len2)
  have len5: "length s5 = Suc (length s)" by (simp add: s5_def len3)
  have len6: "length s6 = Suc (length s)" by (simp add: s6_def len5)
  have len8: "length s8 = Suc (length s)" by (simp add: s8_def len6)
  have len9: "length s9 = Suc (length s)" by (simp add: s9_def len8)
  have len11: "length s11 = Suc (length s)" by (simp add: s11_def len9)
  have len: "length s' = Suc (length s)" by (simp add: s' len11)
  have d3: "deref s3 x = (if x = c then blank\<lparr>tagName := Some ''div''\<rparr> else deref s2 x)" for x
    by (simp add: s3_def deref_append len2 c_def)
  have d5o: "deref s5 x = deref s3 x" if "x \<noteq> c" for x
    using that by (simp add: s5_def deref_upd_other set_innerHTML_other)
  have d5c: "tagName (deref s5 c) = Some ''div''" "parentElement (deref s5 c) = None"
    "childNodes (deref s5 c) = []" "classList (deref s5 c) = [''rendered-latex'']"
    by (simp_all add: s5_def deref_upd len3 c_def set_innerHTML_fields d3 [unfolded c_def])
  have p5: "parentElement (deref s5 p) = Some g"
    using ne assms(3) by (simp add: d5o d3 d2)
  have d6: "deref s6 x =
     (if x = c then (deref s5 c)\<lparr>parentElement := Some g\<rparr>
      else if x = g then (deref s5 g)\<lparr>childNodes := insert_after p c (childNodes (deref s5 g))\<rparr>
      else deref s5 x)" for x
    unfolding s6_def
    by (rule insertAdjacentElement_fresh [OF p5 d5c(2)]) (use ne wf(6) in \<open>simp_all add: len5 c_def\<close>)
  have d8o: "deref s8 x = deref s6 x" if "x \<noteq> c" for x
    using that by (simp add: s8_def classList_add_other)
  have d8c: "tagName (deref s8 c) = Some ''div''" "parentElement (deref s8 c) = Some g"
    "childNodes (deref s8 c) = []" "''rendered-latex'' \<in> set (classList (deref s8 c))"
    by (simp_all add: s8_def classList_add_fields classList_add_mono d6 d5c)
  have d9: "tagName (deref s9 x) = tagName (deref s8 x)"
    "parentElement (deref s9 x) = parentElement (deref s8 x)"
    "childNodes (deref s9 x) = childNodes (deref s8 x)"
    "classList (deref s9 x) = classList (deref s8 x)"
    "textContent (deref s9 x) = textContent (deref s8 x)" for x
    by (simp_all add: s9_def deref_upd)
  have d11: "tagName (deref s11 x) = tagName (deref s9 x)"
    "parentElement (deref s11 x) = parentElement (deref s9 x)"
    "childNodes (deref s11 x) = childNodes (deref s9 x)"
    "classList (deref s11 x) = classList (deref s9 x)" for x
    by (simp_all add: s11_def set_style_fields renderMathInElement_fields)
  have t11: "textContent (deref s11 x) = textContent (deref s9 x)" if "x \<noteq> c" for x
    using that by (simp add: s11_def set_style_fields renderMathInElement_other)
  have d': "tagName (deref s' x) = tagName (deref s11 x)"
    "parentElement (deref s' x) = parentElement (deref s11 x)"
    "childNodes (deref s' x) = childNodes (deref s11 x)"
    "classList (deref s' x) = classList (deref s11 x)"
    "textContent (deref s' x) = textContent (deref s11 x)" for x
    by (simp_all add: s' deref_upd)
  have old: "tagName (deref s' x) = tagName (deref s x)"
    "parentElement (deref s' x) = parentElement (deref s x)"
    "textContent (deref s' x) = textContent (deref s x)" if "x \<noteq> c" for x
    using that by (simp_all add: d' d11 t11 d9 d8o d6 d5o d3 d2)
  have kids: "childNodes (deref s' x) = (if x = g then insert_after p c ?K else childNodes (deref s x))"
    if "x \<noteq> c" for x
    using that by (simp add: d' d11 d9 d8o d6 d5o d3 d2 ne)
  have new: "tagName (deref s' c) = Some ''div''" "parentElement (deref s' c) = Some g"
    "''rendered-latex'' \<in> set (classList (deref s' c))"
    by (simp_all add: d' d11 d9 d8c)
  have cls: "classList (deref s' x) = classList (deref s x)"
    if "x \<noteq> node" "x \<noteq> p" "x \<noteq> c" for x
    using that by (simp add: d' d11 d9 d8o d6 d5o d3 c2)
  have tag: "tagName (deref s' x) = (if x = c then Some ''div'' else tagName (deref s x))" for x
    using old(1) [of x] new(1) by simp
  have par: "parentElement (deref s' x) = (if x = c then Some g else parentElement (deref s x))" for x
    using old(2) [of x] new(2) by simp
  have tx: "textContent (deref s' node) = textContent (deref s node)"
    using old(3) [of node] ne by simp
  show ?thesis
    unfolding insertion_frame_def
    using len tag tx cls new(3) par kids unfolding c_def by blast
qed

lemma insert_container_030_raises:
  assumes "parentElement (deref s p) = Some g" and "insert_container_030 E node p s = Inl (e, s')"
  shows "\<And>x. x < length s \<Longrightarrow> tagName (deref s' x) = tagName (deref s x)"
    and "\<And>x. x < length s \<Longrightarrow> parentElement (deref s' x) = parentElement (deref s x)"
    and "\<And>x. x < length s \<Longrightarrow> childNodes (deref s' x) = childNodes (deref s x)"
proof -
  have "s' = s @ [blank\<lparr>tagName := Some ''div''\<rparr>]"
    using assms by (auto simp: insert_container_030_def createElement_def Let_def split: sum.splits)
  then show "\<And>x. x < length s \<Longrightarrow> tagName (deref s' x) = tagName (deref s x)"
    and "\<And>x. x < length s \<Longrightarrow> parentElement (deref s' x) = parentElement (deref s x)"
    and "\<And>x. x < length s \<Longrightarrow> childNodes (deref s' x) = childNodes (deref s x)"
    by (simp_all add: deref_append classList_add_fields)
qed


section \<open>One call of \<open>handle_node\<close>\<close>

lemma has_math_text:
  "textContent (deref s' node) = textContent (deref s node) \<Longrightarrow> has_math s' node = has_math s node"
  by (simp add: has_math_def has_latex_def has_asciimath_def)

lemma is_container_cong:
  "tagName (deref s' x) = tagName (deref s x) \<Longrightarrow> classList (deref s' x) = classList (deref s x)
   \<Longrightarrow> is_container s' x = is_container s x"
  by (simp add: is_container_def)

lemma following_members:
  assumes "wf_at s node" and "parentElement (deref s node) = Some p"
    and "x \<in> set (following s p)"
  shows "x \<noteq> node" and "x \<noteq> p" and "x < length s"
proof -
  from assms(1,2) obtain g where g: "parentElement (deref s p) = Some g"
    by (auto simp: wf_at_def split: option.splits)
  let ?K = "childNodes (deref s g)"
  from assms(1,2) g have wf: "p \<noteq> g" "distinct ?K"
    "\<And>x. x \<in> set ?K \<Longrightarrow> x < length s \<and> x \<noteq> g \<and> parentElement (deref s x) = Some g"
    by (auto simp: wf_at_def)
  have f: "following s p = drop 1 (dropWhile (\<lambda>x. x \<noteq> p) ?K)" by (simp add: following_def g)
  with assms(3) have xK: "x \<in> set ?K" using following_subset by fastforce
  show "x \<noteq> p" using assms(3) following_not_self [OF wf(2), of p] f by auto
  show "x < length s" using wf(3) [OF xK] by simp
  show "x \<noteq> node" using wf(3) [OF xK] assms(2) wf(1) by auto
qed

text \<open>
  The effect of a call that returns, from the two frames: the stale container leaves the
  following siblings, and the new container (the next free identifier) is put in front of
  them when the node holds math.
\<close>

lemma step_frames:
  assumes "wf_at s node" and "parentElement (deref s node) = Some p"
    and "parentElement (deref s p) = Some g" and "removal_frame s node p g s'"
    and "(\<not> has_math s node \<and> s1 = s') \<or> (has_math s node \<and> insertion_frame s' node p g s1)"
  shows "wf_at s1 node \<and> parentElement (deref s1 node) = Some p \<and>
      has_math s1 node = has_math s node \<and>
      following s1 p = (if has_math s node then [length s] else []) @ drop_stale s (following s p) \<and>
      (\<forall>x \<in> set (drop_stale s (following s p)). is_container s1 x = is_container s x) \<and>
      (has_math s node \<longrightarrow> is_container s1 (length s)) \<and>
      length s1 = (if has_math s node then Suc (length s) else length s)"
proof -
  note ar = after_removal [OF assms(1-4)]
  from assms(4) have re: "length s' = length s"
    "\<And>x. tagName (deref s' x) = tagName (deref s x)"
    "\<And>x. textContent (deref s' x) = textContent (deref s x)"
    "\<And>x. x \<noteq> node \<Longrightarrow> x \<noteq> p \<Longrightarrow> classList (deref s' x) = classList (deref s x)"
    by (simp_all add: removal_frame_def)
  have hm: "has_math s' node = has_math s node" using re(3) by (rule has_math_text)
  have mem: "x \<noteq> node \<and> x \<noteq> p \<and> x < length s" if "x \<in> set (following s' p)" for x
    using following_members [OF ar(1,2) that] re(1) by simp
  have ic: "is_container s' x = is_container s x" if "x \<in> set (following s' p)" for x
    using mem [OF that] by (intro is_container_cong re(2) re(4)) simp_all
  show ?thesis
  proof (cases "has_math s node")
    case False
    with assms(5) have "s1 = s'" by auto
    with False ar hm ic re(1) show ?thesis by simp
  next
    case True
    with assms(5) have ins: "insertion_frame s' node p g s1" by auto
    note ai = after_insertion [OF ar(1,2,3) ins]
    from ins have ie: "length s1 = Suc (length s')"
      "\<And>x. tagName (deref s1 x) = (if x = length s' then Some ''div'' else tagName (deref s' x))"
      "textContent (deref s1 node) = textContent (deref s' node)"
      "\<And>x. x \<noteq> node \<Longrightarrow> x \<noteq> p \<Longrightarrow> x \<noteq> length s' \<Longrightarrow>
             classList (deref s1 x) = classList (deref s' x)"
      "''rendered-latex'' \<in> set (classList (deref s1 (length s')))"
      by (simp_all add: insertion_frame_def)
    have fo: "following s1 p = [length s] @ drop_stale s (following s p)"
      using ai(4) ar(4) re(1) by simp
    have ic1: "is_container s1 x = is_container s x" if "x \<in> set (drop_stale s (following s p))" for x
    proof -
      have x: "x \<in> set (following s' p)" using that ar(4) by simp
      have "is_container s1 x = is_container s' x"
        using mem [OF x] re(1) by (intro is_container_cong) (simp_all add: ie(2) ie(4))
      with ic [OF x] show ?thesis by simp
    qed
    have new: "is_container s1 (length s)"
      using ie(2) [of "length s'"] ie(5) re(1) by (simp add: is_container_def)
    have "has_math s1 node = has_math s node" using ie(3) hm has_math_text by metis
    with True ai(1,2) fo ic1 new ie(1) re(1) show ?thesis by simp
  qed
qed

lemma handle_node_step:
  assumes "wf_at s node" and "parentElement (deref s node) = Some p"
    and "handle_node E node s = Inr s1"
  shows "wf_at s1 node \<and> parentElement (deref s1 node) = Some p \<and>
      has_math s1 node = has_math s node \<and>
      following s1 p = (if has_math s node then [length s] else []) @ drop_stale s (following s p) \<and>
      (\<forall>x \<in> set (drop_stale s (following s p)). is_container s1 x = is_container s x) \<and>
      (has_math s node \<longrightarrow> is_container s1 (length s)) \<and>
      length s1 = (if has_math s node then Suc (length s) else length s)"
proof -
  from assms(1,2) obtain g where g: "parentElement (deref s p) = Some g"
    by (auto simp: wf_at_def split: option.splits)
  from assms(2,3) obtain s' where rs: "remove_stale node p s = Inr s'"
    and br: "(\<not> has_math s' node \<and> s1 = s') \<or>
             (has_math s' node \<and> insert_container E node p s' = Inr s1)"
    by (auto simp: handle_node_def has_math_def split: sum.splits if_splits)
  have re: "removal_frame s node p g s'"
    using remove_stale_effect [OF assms(1,2) g] rs by blast
  note ar = after_removal [OF assms(1,2) g re]
  have hm: "has_math s' node = has_math s node"
    using re by (intro has_math_text) (simp add: removal_frame_def)
  have "(\<not> has_math s node \<and> s1 = s') \<or> (has_math s node \<and> insertion_frame s' node p g s1)"
    using br hm insert_container_effect [OF ar(1,2,3)] by auto
  then show ?thesis by (rule step_frames [OF assms(1,2) g re])
qed

lemma handle_node_030_step:
  assumes "wf_at s node" and "parentElement (deref s node) = Some p"
    and "handle_node_030 E node s = Inr s1"
  shows "wf_at s1 node \<and> parentElement (deref s1 node) = Some p \<and>
      has_math s1 node = has_math s node \<and>
      following s1 p = (if has_math s node then [length s] else []) @ drop_stale s (following s p) \<and>
      (\<forall>x \<in> set (drop_stale s (following s p)). is_container s1 x = is_container s x) \<and>
      (has_math s node \<longrightarrow> is_container s1 (length s)) \<and>
      length s1 = (if has_math s node then Suc (length s) else length s)"
proof -
  from assms(1,2) obtain g where g: "parentElement (deref s p) = Some g"
    by (auto simp: wf_at_def split: option.splits)
  from assms(2,3) obtain s' where rs: "remove_stale_030 node p s = Inr s'"
    and br: "(\<not> has_math s' node \<and> s1 = s') \<or>
             (has_math s' node \<and> insert_container_030 E node p s' = Inr s1)"
    by (auto simp: handle_node_030_def has_math_def split: sum.splits if_splits)
  have re: "removal_frame s node p g s'"
    using remove_stale_030_effect [OF assms(1,2) g] rs by blast
  note ar = after_removal [OF assms(1,2) g re]
  have hm: "has_math s' node = has_math s node"
    using re by (intro has_math_text) (simp add: removal_frame_def)
  have "(\<not> has_math s node \<and> s1 = s') \<or> (has_math s node \<and> insertion_frame s' node p g s1)"
    using br hm insert_container_030_effect [OF ar(1,2,3)] by auto
  then show ?thesis by (rule step_frames [OF assms(1,2) g re])
qed

lemma drop_stale_head:
  "is_container s c \<Longrightarrow> drop_stale s (c # F) = F"
  by (simp add: drop_stale_def)

lemma drop_stale_clean:
  "\<forall>x \<in> set (drop 1 xs). \<not> is_container s x \<Longrightarrow> filter (is_container s) (drop_stale s xs) = []"
  by (cases xs) (auto simp: drop_stale_def)

lemma drop_stale_subset: "set (drop_stale s xs) \<subseteq> set xs"
  by (cases xs) (auto simp: drop_stale_def)

text \<open>Two calls in a row, from the conclusions of the single steps.\<close>

lemma twice:
  assumes "has_math s node"
    and 1: "wf_at s1 node \<and> parentElement (deref s1 node) = Some p \<and>
      has_math s1 node = has_math s node \<and>
      following s1 p = (if has_math s node then [length s] else []) @ drop_stale s (following s p) \<and>
      (\<forall>x \<in> set (drop_stale s (following s p)). is_container s1 x = is_container s x) \<and>
      (has_math s node \<longrightarrow> is_container s1 (length s)) \<and>
      length s1 = (if has_math s node then Suc (length s) else length s)"
    and 2: "wf_at s2 node \<and> parentElement (deref s2 node) = Some p \<and>
      has_math s2 node = has_math s1 node \<and>
      following s2 p = (if has_math s1 node then [length s1] else []) @ drop_stale s1 (following s1 p) \<and>
      (\<forall>x \<in> set (drop_stale s1 (following s1 p)). is_container s2 x = is_container s1 x) \<and>
      (has_math s1 node \<longrightarrow> is_container s2 (length s1)) \<and>
      length s2 = (if has_math s1 node then Suc (length s1) else length s1)"
  shows "following s1 p = length s # drop_stale s (following s p) \<and>
         following s2 p = length s1 # drop_stale s (following s p) \<and>
         is_container s1 (length s) \<and> is_container s2 (length s1) \<and>
         (\<forall>x \<in> set (drop_stale s (following s p)). is_container s2 x = is_container s x) \<and>
         ((\<forall>x \<in> set (drop 1 (following s p)). \<not> is_container s x) \<longrightarrow>
            containers s1 p = [length s] \<and> containers s2 p = [length s1] \<and>
            (\<forall>x \<in> set (drop 1 (following s2 p)). \<not> is_container s2 x)) \<and>
         wf_at s2 node \<and> parentElement (deref s2 node) = Some p \<and> has_math s2 node"
proof -
  let ?F = "drop_stale s (following s p)"
  from 1 assms(1) have a: "following s1 p = length s # ?F" "is_container s1 (length s)"
    "has_math s1 node" "\<And>x. x \<in> set ?F \<Longrightarrow> is_container s1 x = is_container s x"
    by simp_all
  have ds: "drop_stale s1 (following s1 p) = ?F" using a(1,2) by (simp add: drop_stale_head)
  from 2 a(3) ds have b: "following s2 p = length s1 # ?F" "is_container s2 (length s1)"
    "has_math s2 node" "\<And>x. x \<in> set ?F \<Longrightarrow> is_container s2 x = is_container s1 x"
    by simp_all
  have c: "is_container s2 x = is_container s x" if "x \<in> set ?F" for x
    using a(4) [OF that] b(4) [OF that] by simp
  have clean: "containers s1 p = [length s] \<and> containers s2 p = [length s1] \<and>
      (\<forall>x \<in> set (drop 1 (following s2 p)). \<not> is_container s2 x)"
    if st: "\<forall>x \<in> set (drop 1 (following s p)). \<not> is_container s x"
  proof -
    have e: "filter (is_container s) ?F = []" using st by (rule drop_stale_clean)
    have "filter (is_container s1) ?F = filter (is_container s) ?F"
      using a(4) by (intro filter_cong) simp_all
    moreover have "filter (is_container s2) ?F = filter (is_container s) ?F"
      using c by (intro filter_cong) simp_all
    ultimately have "containers s1 p = [length s]" "containers s2 p = [length s1]"
      "filter (is_container s2) ?F = []"
      using a(1,2) b(1,2) e by (simp_all add: containers_def)
    then show ?thesis using b(1) by (simp add: filter_empty_conv)
  qed
  from a b c clean 2 show ?thesis by simp
qed

text \<open>
  Two calls in a row on a node that holds math, in a document tree (\<open>wf_at\<close>), when both
  return (either version): the siblings after the parent are, after the first call, the first
  container followed by the old siblings without the stale container, and after the second
  call the same list with the second container in the place of the first. When the page held
  no rendered container behind the immediate next sibling of the parent, the parent is
  followed by exactly one container after each call, and the page is again of this kind.
\<close>

lemma sync_twice_one_container:
  "wf_at s node \<Longrightarrow> parentElement (deref s node) = Some p \<Longrightarrow> has_math s node \<Longrightarrow>
   (handle_node E node s = Inr s1 \<and> handle_node E node s1 = Inr s2) \<or>
   (handle_node_030 E node s = Inr s1 \<and> handle_node_030 E node s1 = Inr s2) \<Longrightarrow>
   following s1 p = length s # drop_stale s (following s p) \<and>
   following s2 p = length s1 # drop_stale s (following s p) \<and>
   is_container s1 (length s) \<and> is_container s2 (length s1) \<and>
   (\<forall>x \<in> set (drop_stale s (following s p)). is_container s2 x = is_container s x) \<and>
   ((\<forall>x \<in> set (drop 1 (following s p)). \<not> is_container s x) \<longrightarrow>
      containers s1 p = [length s] \<and> containers s2 p = [length s1] \<and>
      (\<forall>x \<in> set (drop 1 (following s2 p)). \<not> is_container s2 x)) \<and>
   wf_at s2 node \<and> parentElement (deref s2 node) = Some p \<and> has_math s2 node"
proof -
  assume wf: "wf_at s node" and par: "parentElement (deref s node) = Some p"
    and hm: "has_math s node"
    and calls: "(handle_node E node s = Inr s1 \<and> handle_node E node s1 = Inr s2) \<or>
      (handle_node_030 E node s = Inr s1 \<and> handle_node_030 E node s1 = Inr s2)"
  from calls show ?thesis
  proof
    assume c: "handle_node E node s = Inr s1 \<and> handle_node E node s1 = Inr s2"
    note 1 = handle_node_step [OF wf par conjunct1 [OF c]]
    from 1 have "wf_at s1 node" "parentElement (deref s1 node) = Some p" by simp_all
    note 2 = handle_node_step [OF this conjunct2 [OF c]]
    show ?thesis by (rule twice [OF hm 1 2])
  next
    assume c: "handle_node_030 E node s = Inr s1 \<and> handle_node_030 E node s1 = Inr s2"
    note 1 = handle_node_030_step [OF wf par conjunct1 [OF c]]
    from 1 have "wf_at s1 node" "parentElement (deref s1 node) = Some p" by simp_all
    note 2 = handle_node_030_step [OF this conjunct2 [OF c]]
    show ?thesis by (rule twice [OF hm 1 2])
  qed
qed


lemma page0_first: "\<not> isl (handle_node env0 2 page0)"
  by code_simp

lemma page0_second: "\<not> isl (handle_node env0 2 (state_of (handle_node env0 2 page0)))"
  by code_simp

lemma page0_pre:
  "wf_at page0 2 \<and> parentElement (deref page0 2) = Some 1 \<and> has_math page0 2 \<and>
   (\<forall>x \<in> set (drop 1 (following page0 1)). \<not> is_container page0 x)"
  by code_simp

lemma state_of_Inr: "\<not> isl r \<Longrightarrow> r = Inr (state_of r)"
  by (cases r) (simp_all add: state_of_def)

lemma sync_twice_one_container_example:
  "wf_at page0 2 \<and> parentElement (deref page0 2) = Some 1 \<and> has_math page0 2 \<and>
   \<not> isl (handle_node env0 2 page0) \<and>
   \<not> isl (handle_node env0 2 (state_of (handle_node env0 2 page0))) \<and>
   containers (state_of (handle_node env0 2 page0)) 1 = [3] \<and>
   containers (state_of (handle_node env0 2 (state_of (handle_node env0 2 page0)))) 1 = [4]"
proof -
  let ?s1 = "state_of (handle_node env0 2 page0)"
  let ?s2 = "state_of (handle_node env0 2 ?s1)"
  have 1: "handle_node env0 2 page0 = Inr ?s1" using page0_first by (rule state_of_Inr)
  have 2: "handle_node env0 2 ?s1 = Inr ?s2" using page0_second by (rule state_of_Inr)
  have len: "length page0 = 3" "length ?s1 = 4" by code_simp+
  from page0_pre have pre: "wf_at page0 2" "parentElement (deref page0 2) = Some 1"
    "has_math page0 2" "\<forall>x \<in> set (drop 1 (following page0 1)). \<not> is_container page0 x"
    by simp_all
  have "(handle_node env0 2 page0 = Inr ?s1 \<and> handle_node env0 2 ?s1 = Inr ?s2) \<or>
    (handle_node_030 env0 2 page0 = Inr ?s1 \<and> handle_node_030 env0 2 ?s1 = Inr ?s2)"
    using 1 2 by simp
  from sync_twice_one_container [OF pre(1,2,3) this] pre(4) len
  have "containers ?s1 1 = [3]" "containers ?s2 1 = [4]" by simp_all
  with pre page0_first page0_second show ?thesis by simp
qed


text \<open>
  Claim C2 fails on a page where a container rendered earlier is no longer the immediate next
  sibling of the parent, the host having put another element between them. The check of
  lines 71 to 79 looks at the immediate next sibling only, so the old container stays: each
  of two calls in a row returns and leaves two containers behind the parent, the new one and
  the old one. Both versions do.
\<close>

theorem sync_twice_two_containers:
  "containers page1 1 = [4] \<and>
   \<not> isl (handle_node env0 2 page1) \<and>
   \<not> isl (handle_node env0 2 (state_of (handle_node env0 2 page1))) \<and>
   containers (state_of (handle_node env0 2 page1)) 1 = [5, 4] \<and>
   containers (state_of (handle_node env0 2 (state_of (handle_node env0 2 page1)))) 1 = [6, 4] \<and>
   \<not> isl (handle_node_030 env0 2 page1) \<and>
   \<not> isl (handle_node_030 env0 2 (state_of (handle_node_030 env0 2 page1))) \<and>
   containers (state_of (handle_node_030 env0 2 page1)) 1 = [5, 4] \<and>
   containers (state_of (handle_node_030 env0 2 (state_of (handle_node_030 env0 2 page1)))) 1 = [6, 4]"
  by code_simp


section \<open>The frame of the stale-container check\<close>

lemma remove1_insert_after: "c \<notin> set K \<Longrightarrow> remove1 c (insert_after p c K) = K"
  by (induction K) auto

lemma filter_new_following:
  assumes "\<And>x. x \<in> set F \<Longrightarrow> x \<noteq> c"
  shows "filter (\<lambda>x. x \<noteq> c) F = F" and "filter (\<lambda>x. x \<noteq> c) (c # F) = F"
  using assms by (simp_all add: filter_id_conv)

text \<open>
  Every way out of \<open>handle_node\<close>: the page after the check (\<open>t\<close>), then either nothing
  more, or the insertion of the container, or an exception raised after the container was
  created and before it was inserted.
\<close>

lemma handle_node_outcome:
  assumes "wf_at s node" and "parentElement (deref s node) = Some p"
    and "parentElement (deref s p) = Some g"
    and "s' = state_of (handle_node E node s) \<or> s' = state_of (handle_node_030 E node s)"
  shows "\<exists>t. removal_frame s node p g t \<and>
           (s' = t \<or> insertion_frame t node p g s' \<or>
            (\<forall>x < length t. tagName (deref s' x) = tagName (deref t x) \<and>
                 parentElement (deref s' x) = parentElement (deref t x) \<and>
                 childNodes (deref s' x) = childNodes (deref t x)))"
  using assms(4)
proof
  assume s': "s' = state_of (handle_node E node s)"
  show ?thesis
  proof (cases "remove_stale node p s")
    case (Inl et)
    obtain e t where et: "et = (e, t)" by (cases et)
    have "removal_frame s node p g t"
      using remove_stale_effect [OF assms(1-3)] Inl et by blast
    moreover have "s' = t" using s' Inl et assms(2) by (simp add: handle_node_def state_of_def)
    ultimately show ?thesis by blast
  next
    case (Inr t)
    have re: "removal_frame s node p g t"
      using remove_stale_effect [OF assms(1-3)] Inr by blast
    note ar = after_removal [OF assms(1-3) re]
    show ?thesis
    proof (cases "\<not> has_latex (deref t node) \<and> \<not> has_asciimath (deref t node)")
      case True
      then have "s' = t" using s' Inr assms(2) by (simp add: handle_node_def state_of_def)
      with re show ?thesis by blast
    next
      case False
      then have h: "handle_node E node s = insert_container E node p t"
        using Inr assms(2) by (auto simp: handle_node_def)
      show ?thesis
      proof (cases "insert_container E node p t")
        case (Inl eu)
        obtain e u where eu: "eu = (e, u)" by (cases eu)
        have "s' = u" using s' h Inl eu by (simp add: state_of_def)
        with insert_container_raises [OF ar(3), of E node e u] Inl eu re show ?thesis by blast
      next
        case (Inr u)
        have "s' = u" using s' h Inr by (simp add: state_of_def)
        with insert_container_effect [OF ar(1,2,3) Inr] re show ?thesis by blast
      qed
    qed
  qed
next
  assume s': "s' = state_of (handle_node_030 E node s)"
  show ?thesis
  proof (cases "remove_stale_030 node p s")
    case (Inl et)
    obtain e t where et: "et = (e, t)" by (cases et)
    have "removal_frame s node p g t"
      using remove_stale_030_effect [OF assms(1-3)] Inl et by blast
    moreover have "s' = t" using s' Inl et assms(2) by (simp add: handle_node_030_def state_of_def)
    ultimately show ?thesis by blast
  next
    case (Inr t)
    have re: "removal_frame s node p g t"
      using remove_stale_030_effect [OF assms(1-3)] Inr by blast
    note ar = after_removal [OF assms(1-3) re]
    show ?thesis
    proof (cases "\<not> has_latex (deref t node) \<and> \<not> has_asciimath (deref t node)")
      case True
      then have "s' = t" using s' Inr assms(2) by (simp add: handle_node_030_def state_of_def)
      with re show ?thesis by blast
    next
      case False
      then have h: "handle_node_030 E node s = insert_container_030 E node p t"
        using Inr assms(2) by (auto simp: handle_node_030_def)
      show ?thesis
      proof (cases "insert_container_030 E node p t")
        case (Inl eu)
        obtain e u where eu: "eu = (e, u)" by (cases eu)
        have "s' = u" using s' h Inl eu by (simp add: state_of_def)
        with insert_container_030_raises [OF ar(3), of E node e u] Inl eu re show ?thesis by blast
      next
        case (Inr u)
        have "s' = u" using s' h Inr by (simp add: state_of_def)
        with insert_container_030_effect [OF ar(1,2,3) Inr] re show ?thesis by blast
      qed
    qed
  qed
qed

lemma text_sibling_raises:
  assumes "parentElement (deref s node) = Some p" and "nextSibling s p = Some x"
    and "tagName (deref s x) = None"
  shows "handle_node E node s = Inl (TypeError, s)"
    and "handle_node_030 E node s = Inl (TypeError, s)"
  using assms
  by (simp_all add: handle_node_def handle_node_030_def remove_stale_def remove_stale_030_def)

text \<open>
  Claim C10. Whatever way \<open>handle_node\<close> (either version) leaves, by return or by
  exception: every node of the page keeps its tag; every node keeps its parent, except the
  stale container, which is detached; every child list but that of the grandparent is as it
  was, and the child list of the grandparent, the new container left aside, is the old one
  without the stale container; the siblings behind the parent, the new container left aside,
  are the old ones, without their first when that one was the stale container. The stale
  container is the immediate next sibling of the parent and an element of class
  \<open>rendered-latex\<close>, so a rendered container further behind is never removed; a next
  sibling that is not an element is not removed either: the check raises a type error on it
  and leaves the page as it was.
\<close>

theorem stale_removal_frame:
  "wf_at s node \<Longrightarrow> parentElement (deref s node) = Some p \<Longrightarrow>
   parentElement (deref s p) = Some g \<Longrightarrow>
   s' = state_of (handle_node E node s) \<or> s' = state_of (handle_node_030 E node s) \<Longrightarrow>
   (\<forall>x < length s. tagName (deref s' x) = tagName (deref s x) \<and>
        parentElement (deref s' x) =
          (if stale s p = Some x then None else parentElement (deref s x)) \<and>
        (x \<noteq> g \<longrightarrow> childNodes (deref s' x) = childNodes (deref s x))) \<and>
   remove1 (length s) (childNodes (deref s' g)) =
     (case stale s p of None \<Rightarrow> childNodes (deref s g)
      | Some sib \<Rightarrow> remove1 sib (childNodes (deref s g))) \<and>
   filter (\<lambda>x. x \<noteq> length s) (following s' p) = drop_stale s (following s p) \<and>
   (\<forall>sib. stale s p = Some sib \<longrightarrow>
        nextSibling s p = Some sib \<and> tagName (deref s sib) \<noteq> None \<and>
        ''rendered-latex'' \<in> set (classList (deref s sib))) \<and>
   (\<forall>x. nextSibling s p = Some x \<and> tagName (deref s x) = None \<longrightarrow>
        handle_node E node s = Inl (TypeError, s) \<and>
        handle_node_030 E node s = Inl (TypeError, s))"
proof -
  assume wf: "wf_at s node" and par: "parentElement (deref s node) = Some p"
    and g: "parentElement (deref s p) = Some g"
    and s': "s' = state_of (handle_node E node s) \<or> s' = state_of (handle_node_030 E node s)"
  let ?K = "childNodes (deref s g)"
  let ?K' = "case stale s p of None \<Rightarrow> ?K | Some sib \<Rightarrow> remove1 sib ?K"
  let ?c = "length s"
  from wf par g have w: "p < length s" "g < length s" "p \<noteq> g"
    "\<And>x. x \<in> set ?K \<Longrightarrow> x < length s"
    by (auto simp: wf_at_def)
  obtain t where re: "removal_frame s node p g t"
    and out: "s' = t \<or> insertion_frame t node p g s' \<or>
            (\<forall>x < length t. tagName (deref s' x) = tagName (deref t x) \<and>
                 parentElement (deref s' x) = parentElement (deref t x) \<and>
                 childNodes (deref s' x) = childNodes (deref t x))"
    using handle_node_outcome [OF wf par g s'] by blast
  note ar = after_removal [OF wf par g re]
  from re have fr: "length t = length s"
    "\<And>x. tagName (deref t x) = tagName (deref s x)"
    "\<And>x. parentElement (deref t x) =
            (if stale s p = Some x then None else parentElement (deref s x))"
    "\<And>x. childNodes (deref t x) =
            (case stale s p of None \<Rightarrow> childNodes (deref s x)
             | Some sib \<Rightarrow> if x = g then remove1 sib ?K else childNodes (deref s x))"
    by (simp_all add: removal_frame_def)
  have Kt: "childNodes (deref t g) = ?K'" using fr(4) [of g] by (simp split: option.split)
  have other: "childNodes (deref t x) = childNodes (deref s x)" if "x \<noteq> g" for x
    using fr(4) [of x] that by (simp split: option.split)
  have cK': "?c \<notin> set ?K'"
  proof
    assume "?c \<in> set ?K'"
    then have "?c \<in> set ?K"
      using set_remove1_subset by (fastforce split: option.splits)
    with w(4) show False by blast
  qed
  have Ft: "\<And>x. x \<in> set (following t p) \<Longrightarrow> x \<noteq> ?c"
    using following_members(3) [OF ar(1,2)] fr(1) by fastforce
  have frame: "(\<forall>x < length s. tagName (deref s' x) = tagName (deref s x) \<and>
        parentElement (deref s' x) =
          (if stale s p = Some x then None else parentElement (deref s x)) \<and>
        (x \<noteq> g \<longrightarrow> childNodes (deref s' x) = childNodes (deref s x))) \<and>
      remove1 ?c (childNodes (deref s' g)) = ?K' \<and>
      filter (\<lambda>x. x \<noteq> ?c) (following s' p) = following t p"
    using out
  proof (elim disjE)
    assume "s' = t"
    then show ?thesis
      using fr(2,3) other Kt cK' filter_new_following(1) [of "following t p" ?c, OF Ft]
      by (simp add: remove1_idem)
  next
    assume ins: "insertion_frame t node p g s'"
    note ai = after_insertion [OF ar(1,2,3) ins]
    from ins have ie:
      "\<And>x. tagName (deref s' x) = (if x = length t then Some ''div'' else tagName (deref t x))"
      "\<And>x. parentElement (deref s' x) = (if x = length t then Some g else parentElement (deref t x))"
      "\<And>x. x \<noteq> length t \<Longrightarrow> childNodes (deref s' x) =
            (if x = g then insert_after p (length t) (childNodes (deref t g))
             else childNodes (deref t x))"
      by (simp_all add: insertion_frame_def)
    have "remove1 ?c (childNodes (deref s' g)) = ?K'"
      using ie(3) [of g] w(2) fr(1) Kt cK' by (simp add: remove1_insert_after)
    moreover have "filter (\<lambda>x. x \<noteq> ?c) (following s' p) = following t p"
      using ai(4) fr(1) filter_new_following(2) [of "following t p" ?c, OF Ft] by simp
    moreover have "tagName (deref s' x) = tagName (deref s x) \<and>
        parentElement (deref s' x) =
          (if stale s p = Some x then None else parentElement (deref s x)) \<and>
        (x \<noteq> g \<longrightarrow> childNodes (deref s' x) = childNodes (deref s x))" if "x < length s" for x
      using that ie(1) [of x] ie(2) [of x] ie(3) [of x] fr(1) fr(2) [of x] fr(3) [of x] other [of x]
      by simp
    ultimately show ?thesis by blast
  next
    assume same: "\<forall>x < length t. tagName (deref s' x) = tagName (deref t x) \<and>
                 parentElement (deref s' x) = parentElement (deref t x) \<and>
                 childNodes (deref s' x) = childNodes (deref t x)"
    have "following s' p = following t p"
      using same w(1,2) fr(1) ar(3) by (simp add: following_def)
    then have "filter (\<lambda>x. x \<noteq> ?c) (following s' p) = following t p"
      using filter_new_following(1) [of "following t p" ?c, OF Ft] by simp
    moreover have "remove1 ?c (childNodes (deref s' g)) = ?K'"
      using same w(2) fr(1) Kt cK' by (simp add: remove1_idem)
    moreover have "tagName (deref s' x) = tagName (deref s x) \<and>
        parentElement (deref s' x) =
          (if stale s p = Some x then None else parentElement (deref s x)) \<and>
        (x \<noteq> g \<longrightarrow> childNodes (deref s' x) = childNodes (deref s x))" if "x < length s" for x
      using that same fr(1) fr(2) [of x] fr(3) [of x] other [of x] by simp
    ultimately show ?thesis by blast
  qed
  have st: "\<forall>sib. stale s p = Some sib \<longrightarrow>
        nextSibling s p = Some sib \<and> tagName (deref s sib) \<noteq> None \<and>
        ''rendered-latex'' \<in> set (classList (deref s sib))"
    by (auto simp: stale_def is_container_def split: option.splits if_splits)
  have tx: "\<forall>x. nextSibling s p = Some x \<and> tagName (deref s x) = None \<longrightarrow>
        handle_node E node s = Inl (TypeError, s) \<and>
        handle_node_030 E node s = Inl (TypeError, s)"
    using text_sibling_raises [OF par] by blast
  from frame ar(4) st tx show ?thesis by simp
qed

lemma page1_pre:
  "wf_at page1 2 \<and> parentElement (deref page1 2) = Some 1 \<and>
   parentElement (deref page1 1) = Some 0 \<and> is_container page1 4 \<and> length page1 = 5 \<and>
   stale page1 1 = None \<and> drop_stale page1 (following page1 1) = [3, 4] \<and>
   parentElement (deref page1 4) = Some 0"
  by code_simp

theorem stale_removal_frame_witness:
  "wf_at page1 2 \<and> parentElement (deref page1 2) = Some 1 \<and>
   parentElement (deref page1 1) = Some 0 \<and> is_container page1 4 \<and>
   filter (\<lambda>x. x \<noteq> 5) (following (state_of (handle_node env0 2 page1)) 1) = [3, 4] \<and>
   parentElement (deref (state_of (handle_node env0 2 page1)) 4) = Some 0"
proof -
  from page1_pre have pre: "wf_at page1 2" "parentElement (deref page1 2) = Some 1"
    "parentElement (deref page1 1) = Some 0" by simp_all
  have "state_of (handle_node env0 2 page1) = state_of (handle_node env0 2 page1) \<or>
    state_of (handle_node env0 2 page1) = state_of (handle_node_030 env0 2 page1)" by simp
  from stale_removal_frame [OF pre this] page1_pre show ?thesis by simp
qed


section \<open>Trees of identified nodes\<close>

lemma elems_ids: "map (\<lambda>m. the (node_id m)) (elems n) = ids n"
  by (induction n) (simp_all add: map_concat comp_def cong: map_cong)

lemma elems_list_ids: "map (\<lambda>m. the (node_id m)) (concat (map elems ns)) = ids_list ns"
  by (induction ns) (simp_all add: elems_ids)

lemma elems_are_elements: "m \<in> set (elems n) \<Longrightarrow> \<exists>i t c ks. m = Elem i t c ks"
  by (induction n) auto

lemma elems_self: "Elem i t c ks \<in> set (elems (Elem i t c ks))"
  by simp

lemma elems_trans: "m \<in> set (elems n) \<Longrightarrow> n \<in> set (elems k) \<Longrightarrow> m \<in> set (elems k)"
  by (induction k) auto

lemma elems_child:
  "k \<in> set ks \<Longrightarrow> m \<in> set (elems k) \<Longrightarrow> m \<in> set (elems (Elem i t c ks))"
  by auto

lemma ids_elems: "m \<in> set (elems n) \<Longrightarrow> set (ids m) \<subseteq> set (ids n)"
  by (induction n) auto

lemma find_distinct:
  "distinct (map f xs) \<Longrightarrow> x \<in> set xs \<Longrightarrow> List.find (\<lambda>y. f y = f x) xs = Some x"
  by (induction xs) auto

lemma find_by_id:
  assumes "distinct (ids_list ns)" and "m \<in> set (concat (map elems ns))" and "node_id m = Some e"
  shows "List.find (\<lambda>n. node_id n = Some e) (concat (map elems ns)) = Some m"
proof -
  let ?xs = "concat (map elems ns)"
  have el: "\<And>y. y \<in> set ?xs \<Longrightarrow> \<exists>i t c ks. y = Elem i t c ks"
    using elems_are_elements by auto
  have "distinct (map (\<lambda>m. the (node_id m)) ?xs)" using assms(1) by (simp add: elems_list_ids)
  then have "List.find (\<lambda>y. the (node_id y) = the (node_id m)) ?xs = Some m"
    using assms(2) by (rule find_distinct)
  moreover have "List.find (\<lambda>y. the (node_id y) = the (node_id m)) ?xs =
      List.find (\<lambda>n. node_id n = Some e) ?xs"
  proof (rule find_cong [OF refl])
    fix y assume "y \<in> set ?xs"
    then obtain i t c ks where "y = Elem i t c ks" using el by blast
    then show "(the (node_id y) = the (node_id m)) = (node_id y = Some e)"
      using assms(3) by auto
  qed
  ultimately show ?thesis by simp
qed

lemma find_append_Some: "List.find P xs = Some x \<Longrightarrow> List.find P (xs @ ys) = Some x"
  by (induction xs) (auto split: if_splits)

lemma lookup_doc:
  assumes "distinct (ids_list (doc d))" and "m \<in> set (concat (map elems (doc d)))"
    and "node_id m = Some e"
  shows "lookup d e = Some m"
  unfolding lookup_def using find_by_id [OF assms] by (simp add: find_append_Some)

subsection \<open>Contexts\<close>

lemma set_ids_plug: "set (ids_list (plug C h)) = set (ctx_ids C) \<union> set (ids_list h)"
  by (induction C h rule: plug.induct) auto

lemma distinct_ids_plug:
  "distinct (ids_list (plug C h)) \<longleftrightarrow>
     distinct (ctx_ids C) \<and> distinct (ids_list h) \<and> set (ctx_ids C) \<inter> set (ids_list h) = {}"
  by (induction C h rule: plug.induct) auto

lemma elems_plug: "m \<in> set (concat (map elems h)) \<Longrightarrow> m \<in> set (concat (map elems (plug C h)))"
  by (induction C h rule: plug.induct) auto

lemma plug_root:
  "C \<noteq> [] \<Longrightarrow> \<exists>i t c ks. plug C h = [Elem i t c ks] \<and> i \<in> set (ctx_ids C)"
proof (induction C h rule: plug.induct)
  case (1 ns)
  then show ?case by simp
next
  case (2 i t c l r C ns)
  show ?case
  proof (cases C)
    case Nil
    then show ?thesis by simp
  next
    case (Cons f C')
    then have "C \<noteq> []" by simp
    from "2.IH" [OF this] show ?thesis by auto
  qed
qed

lemma plug_focus:
  "plug (Frame i t c l r # C) (a @ [Elem j t' c' ks] @ b) =
   plug (Frame j t' c' [] [] # Frame i t c (l @ a) (b @ r) # C) ks"
  by simp

subsection \<open>Parents\<close>

lemma node_id_ids: "node_id k = Some e \<Longrightarrow> e \<in> set (ids k)"
  by (cases k) auto

lemma parent_in_descendant:
  "parent_in e n = Some p \<Longrightarrow> e \<in> set (ids_list (node_children n))"
proof (induction n)
  case (Text s)
  then show ?case by simp
next
  case (Elem j t c ks)
  show ?case
  proof (cases "Some e \<in> set (map node_id ks)")
    case True
    then obtain k where k: "k \<in> set ks" "node_id k = Some e" by auto
    have "e \<in> set (ids k)" using k(2) by (rule node_id_ids)
    with k(1) show ?thesis by auto
  next
    case False
    with Elem.prems obtain r where "List.find (\<lambda>r. r \<noteq> None) (map (parent_in e) ks) = Some r"
      "r = Some p" by (auto split: option.splits)
    then obtain k where k: "k \<in> set ks" "parent_in e k = Some p"
      by (metis (mono_tags, lifting) find_Some_iff imageE nth_mem set_map)
    then have "e \<in> set (ids_list (node_children k))" using Elem.IH by blast
    then have "e \<in> set (ids k)" by (cases k) auto
    with k(1) show ?thesis by auto
  qed
qed

lemma parent_in_None: "e \<notin> set (ids n) \<Longrightarrow> parent_in e n = None"
proof (rule ccontr)
  assume a: "e \<notin> set (ids n)" and "parent_in e n \<noteq> None"
  then obtain p where "parent_in e n = Some p" by auto
  then have "e \<in> set (ids_list (node_children n))" by (rule parent_in_descendant)
  then have "e \<in> set (ids n)" by (cases n) auto
  with a show False by simp
qed

lemma find_first_Some:
  assumes "\<And>x. x \<in> set a \<Longrightarrow> f x = None" and "f n = Some p"
  shows "List.find (\<lambda>r. r \<noteq> None) (map f (a @ [n] @ b)) = Some (Some p)"
  using assms by (induction a) auto

lemma strict_descendant_ids:
  "Elem j t c ks \<in> set (elems x) \<Longrightarrow> k \<in> set ks \<Longrightarrow>
   set (ids k) \<subseteq> set (ids_list (node_children x))"
proof (cases x)
  case (Text s)
  assume "Elem j t c ks \<in> set (elems x)"
  with Text show ?thesis by simp
next
  case (Elem i t' c' ns)
  assume a: "Elem j t c ks \<in> set (elems x)" and k: "k \<in> set ks"
  show ?thesis
  proof (cases "Elem j t c ks = x")
    case True
    with Elem k show ?thesis by auto
  next
    case False
    with a Elem obtain n where n: "n \<in> set ns" "Elem j t c ks \<in> set (elems n)" by auto
    have "set (ids k) \<subseteq> set (ids (Elem j t c ks))" using k by auto
    also have "\<dots> \<subseteq> set (ids n)" using ids_elems [OF n(2)] .
    also have "\<dots> \<subseteq> set (ids_list (node_children x))" using n(1) Elem by auto
    finally show ?thesis .
  qed
qed

lemma parent_among:
  assumes "distinct (ids_list ns)" and "x \<in> set ns"
    and "e \<in> set (ids_list (node_children x))" and "parent_in e x = Some j"
  shows "List.find (\<lambda>r. r \<noteq> None) (map (parent_in e) ns) = Some (Some j)"
    and "Some e \<notin> set (map node_id ns)"
proof -
  from assms(2) obtain a b where ab: "ns = a @ [x] @ b"
    by (metis append_Cons append_Nil split_list)
  have ex: "e \<in> set (ids x)" using assms(3) by (cases x) auto
  have da: "e \<notin> set (ids_list a)" "e \<notin> set (ids_list b)" "distinct (ids x)"
    using assms(1) ex ab by auto
  have "parent_in e m = None" if "m \<in> set a" for m
  proof (rule parent_in_None)
    show "e \<notin> set (ids m)" using da(1) that by auto
  qed
  then show "List.find (\<lambda>r. r \<noteq> None) (map (parent_in e) ns) = Some (Some j)"
    unfolding ab using assms(4) by (rule find_first_Some)
  have "node_id m \<noteq> Some e" if "m \<in> set ns" for m
  proof (cases "m \<in> set a \<or> m \<in> set b")
    case True
    then have "e \<notin> set (ids m)" using da(1,2) by auto
    then show ?thesis by (cases m) auto
  next
    case False
    with that ab have "m = x" by auto
    then show ?thesis using da(3) assms(3) by (cases x) auto
  qed
  then show "Some e \<notin> set (map node_id ns)" by fastforce
qed

lemma parent_in_found:
  assumes "distinct (ids n)" and "Elem j t c ks \<in> set (elems n)"
    and "k \<in> set ks" and "node_id k = Some e"
  shows "parent_in e n = Some j"
  using assms(1,2)
proof (induction n)
  case (Text s)
  then show ?case by simp
next
  case (Elem i t' c' ns)
  show ?case
  proof (cases "Elem j t c ks = Elem i t' c' ns")
    case True
    with assms(3,4) have "Some e \<in> set (map node_id ns)" by force
    with True show ?thesis by simp
  next
    case False
    with Elem.prems(2) obtain x where x: "x \<in> set ns" "Elem j t c ks \<in> set (elems x)" by auto
    have dl: "distinct (ids_list ns)" using Elem.prems(1) by simp
    then have dx: "distinct (ids x)" using x(1) by (auto dest!: split_list)
    have px: "parent_in e x = Some j" using Elem.IH [OF x(1) dx x(2)] .
    have "e \<in> set (ids k)" using assms(4) by (rule node_id_ids)
    then have ex: "e \<in> set (ids_list (node_children x))"
      using strict_descendant_ids [OF x(2) assms(3)] by auto
    from parent_among [OF dl x(1) ex px] show ?thesis by simp
  qed
qed

lemma parent_in_forest:
  assumes "distinct (ids_list ns)" and "Elem j t c ks \<in> set (concat (map elems ns))"
    and "k \<in> set ks" and "node_id k = Some e"
  shows "List.find (\<lambda>r. r \<noteq> None) (map (parent_in e) ns) = Some (Some j)"
    and "Some e \<notin> set (map node_id ns)"
proof -
  from assms(2) obtain x where x: "x \<in> set ns" "Elem j t c ks \<in> set (elems x)" by auto
  have dx: "distinct (ids x)" using assms(1) x(1) by (auto dest!: split_list)
  have px: "parent_in e x = Some j" using parent_in_found [OF dx x(2) assms(3,4)] .
  have "e \<in> set (ids k)" using assms(4) by (rule node_id_ids)
  then have ex: "e \<in> set (ids_list (node_children x))"
    using strict_descendant_ids [OF x(2) assms(3)] by auto
  from parent_among [OF assms(1) x(1) ex px]
  show "List.find (\<lambda>r. r \<noteq> None) (map (parent_in e) ns) = Some (Some j)"
    and "Some e \<notin> set (map node_id ns)" by simp_all
qed

lemma parentNode_doc:
  assumes "distinct (ids_list (doc d))" and "Elem j t c ks \<in> set (concat (map elems (doc d)))"
    and "k \<in> set ks" and "node_id k = Some e"
  shows "parentNode d e = ElementParent j"
proof -
  note p = parent_in_forest [OF assms]
  have "List.find (\<lambda>r. r \<noteq> None) (map (parent_in e) (doc d @ detached d)) = Some (Some j)"
    using p(1) by (simp add: find_append_Some)
  with p(2) show ?thesis by (simp add: parentNode_def)
qed

subsection \<open>Replacement\<close>

lemma repl_absent: "i \<notin> set (ids n) \<Longrightarrow> repl i news n = [n]"
proof (induction n)
  case (Text s)
  show ?case by simp
next
  case (Elem j t c ks)
  then have "\<And>k. k \<in> set ks \<Longrightarrow> repl i news k = [k]" by auto
  then have "concat (map (repl i news) ks) = ks" by (induction ks) auto
  with Elem.prems show ?case by simp
qed

lemma repl_list_absent: "i \<notin> set (ids_list ns) \<Longrightarrow> concat (map (repl i news) ns) = ns"
  by (induction ns) (simp_all add: repl_absent)

lemma repl_here:
  assumes "distinct (ids_list (a @ [Elem w t c ks] @ b))"
  shows "concat (map (repl w news) (a @ [Elem w t c ks] @ b)) = a @ news @ b"
proof -
  have "w \<notin> set (ids_list a)" "w \<notin> set (ids_list b)" using assms by auto
  then show ?thesis by (simp add: repl_list_absent)
qed

lemma repl_plug:
  "distinct (ids_list (plug C h)) \<Longrightarrow> w \<in> set (ids_list h) \<Longrightarrow>
   concat (map (repl w news) (plug C h)) = plug C (concat (map (repl w news) h))"
proof (induction C h rule: plug.induct)
  case (1 ns)
  show ?case by simp
next
  case (2 i t c l r C ns)
  have d: "distinct (ids_list [Elem i t c (l @ ns @ r)])"
    using "2.prems"(1) by (simp add: distinct_ids_plug)
  then have "i \<noteq> w" "w \<notin> set (ids_list l)" "w \<notin> set (ids_list r)"
    using "2.prems"(2) by auto
  then have "concat (map (repl w news) [Elem i t c (l @ ns @ r)]) =
      [Elem i t c (l @ concat (map (repl w news) ns) @ r)]"
    by (simp add: repl_list_absent)
  moreover have "w \<in> set (ids_list [Elem i t c (l @ ns @ r)])" using "2.prems"(2) by simp
  ultimately show ?case using "2.IH" "2.prems"(1) by simp
qed

lemma repl_below_top:
  "Some w \<notin> set (map node_id ns) \<Longrightarrow> map (repl_below w news) ns = concat (map (repl w news) ns)"
proof (induction ns)
  case Nil
  show ?case by simp
next
  case (Cons n ns)
  then show ?case by (cases n) (auto simp: repl_below_def)
qed

text \<open>
  Replacing an element of the hole of a context that has an enclosing element: the
  document changes in the hole only.
\<close>

lemma replace_node_plug:
  assumes "doc d = plug (Frame i t c l r # C) (a @ [Elem w t' c' ks] @ b)"
    and "distinct (ids_list (doc d))"
  shows "doc (replace_node w news d) = plug (Frame i t c l r # C) (a @ news @ b)"
    and "fresh (replace_node w news d) = fresh d"
proof -
  let ?h = "a @ [Elem w t' c' ks] @ b"
  let ?C = "Frame i t c l r # C"
  have m: "Elem w t' c' ks \<in> set (concat (map elems (doc d)))"
    unfolding assms(1) by (rule elems_plug) simp
  have lk: "lookup d w = Some (Elem w t' c' ks)" using lookup_doc [OF assms(2) m] by simp
  have wh: "w \<in> set (ids_list ?h)" by simp
  obtain j u v ns where root: "plug ?C ?h = [Elem j u v ns]" "j \<in> set (ctx_ids ?C)"
    using plug_root [of ?C ?h] by blast
  have "j \<noteq> w" using assms(2) root(2) wh unfolding assms(1) distinct_ids_plug by auto
  then have top: "Some w \<notin> set (map node_id (doc d))" using root(1) assms(1) by simp
  have dh: "distinct (ids_list ?h)" using assms(2) unfolding assms(1) distinct_ids_plug by simp
  have "doc (replace_node w news d) = concat (map (repl w news) (doc d))"
    using lk top by (simp add: replace_node_def repl_below_top)
  also have "\<dots> = concat (map (repl w news) (plug ?C ?h))" by (simp only: assms(1))
  also have "\<dots> = plug ?C (concat (map (repl w news) ?h))"
    using assms(2) wh unfolding assms(1) by (rule repl_plug)
  also have "concat (map (repl w news) ?h) = a @ news @ b" using dh by (rule repl_here)
  finally show "doc (replace_node w news d) = plug ?C (a @ news @ b)" .
  show "fresh (replace_node w news d) = fresh d" using lk by (simp add: replace_node_def)
qed

lemma distinct_plug_replace:
  assumes "distinct (ids_list (plug C h))" and "distinct (ids_list h')"
    and "set (ids_list h') \<subseteq> set (ids_list h)"
  shows "distinct (ids_list (plug C h'))"
  using assms unfolding distinct_ids_plug by auto


section \<open>A pass of the raw extractor over a rendered tree\<close>

lemma forM_append:
  "forM (xs @ ys) f s = (case forM xs f s of Inl e \<Rightarrow> Inl e | Inr s' \<Rightarrow> forM ys f s')"
  by (induction xs arbitrary: s) (auto split: sum.splits)

lemma forM_fold: "forM xs (\<lambda>x s. Inr (f x s)) s = Inr (fold f xs s)"
  by (induction xs arbitrary: s) auto

text \<open>
  A pass selects identifiers \<open>sel\<close> in document order and applies \<open>step\<close> to each. When a
  step turns the block that it is selected for into \<open>tr\<close> of the block (which may depend on
  the tag of the enclosing element), in every context, the pass turns a list of rendered
  trees into their images under \<open>tr\<close>.
\<close>

lemma pass_list:
  assumes tree: "\<And>x l r d. x \<in> set rs \<Longrightarrow> doc d = plug (Frame i t c l r # C) [to_dom x] \<Longrightarrow>
      distinct (ids_list (doc d)) \<Longrightarrow>
      \<exists>d'. forM (sel x) step d = Inr d' \<and> doc d' = plug (Frame i t c l r # C) [to_dom (tr t x)] \<and>
           distinct (ids_list (doc d'))"
    and "doc d = plug (Frame i t c l r # C) (map to_dom rs)"
    and "distinct (ids_list (doc d))"
  shows "\<exists>d'. forM (concat (map sel rs)) step d = Inr d' \<and>
           doc d' = plug (Frame i t c l r # C) (map to_dom (map (tr t) rs)) \<and>
           distinct (ids_list (doc d'))"
  using assms
proof (induction rs arbitrary: l d)
  case Nil
  then show ?case by simp
next
  case (Cons x xs)
  have eq: "doc d = plug (Frame i t c l (map to_dom xs @ r) # C) [to_dom x]"
    using Cons.prems(2) by simp
  have x: "x \<in> set (x # xs)" by simp
  from Cons.prems(1) [OF x eq Cons.prems(3)]
  obtain d1 where d1: "forM (sel x) step d = Inr d1"
    "doc d1 = plug (Frame i t c l (map to_dom xs @ r) # C) [to_dom (tr t x)]"
    "distinct (ids_list (doc d1))" by blast
  have t: "\<exists>d'. forM (sel y) step d = Inr d' \<and>
      doc d' = plug (Frame i t c l r # C) [to_dom (tr t y)] \<and> distinct (ids_list (doc d'))"
    if "y \<in> set xs" "doc d = plug (Frame i t c l r # C) [to_dom y]" "distinct (ids_list (doc d))"
    for y l r d
  proof -
    from that(1) have "y \<in> set (x # xs)" by simp
    from Cons.prems(1) [OF this that(2,3)] show ?thesis .
  qed
  have "doc d1 = plug (Frame i t c (l @ [to_dom (tr t x)]) r # C) (map to_dom xs)"
    using d1(2) by simp
  from Cons.IH [OF t this d1(3)]
  obtain d2 where d2: "forM (concat (map sel xs)) step d1 = Inr d2"
    "doc d2 = plug (Frame i t c (l @ [to_dom (tr t x)]) r # C) (map to_dom (map (tr t) xs))"
    "distinct (ids_list (doc d2))" by blast
  have "forM (concat (map sel (x # xs))) step d = Inr d2"
    using d1(1) d2(1) by (simp add: forM_append)
  moreover have "doc d2 = plug (Frame i t c l r # C) (map to_dom (map (tr t) (x # xs)))"
    using d2(2) by simp
  ultimately show ?case using d2(3) by blast
qed

lemma pass_elem:
  assumes sel_elem: "\<And>i t c ks. sel (RElem i t c ks) = concat (map sel ks)"
    and tr_elem: "\<And>u i t c ks. tr u (RElem i t c ks) = RElem i t c (map (tr t) ks)"
    and tree: "\<And>x l r d. x \<in> set ks \<Longrightarrow> doc d = plug (Frame i t c l r # K) [to_dom x] \<Longrightarrow>
      distinct (ids_list (doc d)) \<Longrightarrow>
      \<exists>d'. forM (sel x) step d = Inr d' \<and> doc d' = plug (Frame i t c l r # K) [to_dom (tr t x)] \<and>
           distinct (ids_list (doc d'))"
    and "doc d = plug K [to_dom (RElem i t c ks)]"
    and "distinct (ids_list (doc d))"
  shows "\<exists>d'. forM (sel (RElem i t c ks)) step d = Inr d' \<and>
      doc d' = plug K [to_dom (tr u (RElem i t c ks))] \<and> distinct (ids_list (doc d'))"
proof -
  have eq: "doc d = plug (Frame i t c [] [] # K) (map to_dom ks)" using assms(4) by simp
  have "\<exists>d'. forM (concat (map sel ks)) step d = Inr d' \<and>
      doc d' = plug (Frame i t c [] [] # K) (map to_dom (map (tr t) ks)) \<and>
      distinct (ids_list (doc d'))"
    using tree eq assms(5) by (rule pass_list)
  then obtain d' where d': "forM (concat (map sel ks)) step d = Inr d'"
    "doc d' = plug (Frame i t c [] [] # K) (map to_dom (map (tr t) ks))"
    "distinct (ids_list (doc d'))" by blast
  have "forM (sel (RElem i t c ks)) step d = Inr d'" using d'(1) by (simp only: sel_elem)
  moreover have "doc d' = plug K [to_dom (tr u (RElem i t c ks))]"
    using d'(2) by (simp only: tr_elem to_dom.simps plug.simps append_Nil append_Nil2)
  ultimately show ?thesis using d'(3) by blast
qed

lemma pass_tree:
  assumes sel_text: "\<And>s. sel (RText s) = []"
    and sel_elem: "\<And>i t c ks. sel (RElem i t c ks) = concat (map sel ks)"
    and tr_text: "\<And>u s. tr u (RText s) = RText s"
    and tr_elem: "\<And>u i t c ks. tr u (RElem i t c ks) = RElem i t c (map (tr t) ks)"
    and ok_elem: "\<And>u i t c ks k. ok u (RElem i t c ks) \<Longrightarrow> k \<in> set ks \<Longrightarrow> ok t k"
    and block: "\<And>i t c l r C d disp src I pres vis. ok t (RMath disp src I pres vis) \<Longrightarrow>
      doc d = plug (Frame i t c l r # C) [to_dom (RMath disp src I pres vis)] \<Longrightarrow>
      distinct (ids_list (doc d)) \<Longrightarrow>
      \<exists>d'. forM (sel (RMath disp src I pres vis)) step d = Inr d' \<and>
           doc d' = plug (Frame i t c l r # C) [to_dom (tr t (RMath disp src I pres vis))] \<and>
           distinct (ids_list (doc d'))"
  shows "ok t x \<Longrightarrow> doc d = plug (Frame i t c l r # C) [to_dom x] \<Longrightarrow>
      distinct (ids_list (doc d)) \<Longrightarrow>
      \<exists>d'. forM (sel x) step d = Inr d' \<and> doc d' = plug (Frame i t c l r # C) [to_dom (tr t x)] \<and>
           distinct (ids_list (doc d'))"
proof (induction x arbitrary: i t c l r C d)
  case (RText s)
  then show ?case by (simp add: sel_text tr_text)
next
  case (RMath disp src I pres vis)
  from block [OF RMath.prems] show ?case .
next
  case (RElem j u cl ks)
  have tree: "\<exists>d'. forM (sel x) step d = Inr d' \<and>
      doc d' = plug (Frame j u cl l' r' # Frame i t c l r # C) [to_dom (tr u x)] \<and>
      distinct (ids_list (doc d'))"
    if "x \<in> set ks" "doc d = plug (Frame j u cl l' r' # Frame i t c l r # C) [to_dom x]"
      "distinct (ids_list (doc d))"
    for x l' r' d
    using RElem.IH [OF that(1) ok_elem [OF RElem.prems(1) that(1)] that(2,3)] .
  from sel_elem tr_elem tree RElem.prems(2,3) show ?case by (rule pass_elem)
qed


section \<open>Rendered blocks\<close>

lemma find_append_None: "List.find P xs = None \<Longrightarrow> List.find P (xs @ ys) = List.find P ys"
  by (induction xs) (auto split: if_splits)

lemma inert_elems: "inert n \<Longrightarrow> m \<in> set (elems n) \<Longrightarrow> inert m"
  by (induction n) (auto simp: list_all_iff)

lemma inert_list_elems: "list_all inert ks \<Longrightarrow> m \<in> set (concat (map elems ks)) \<Longrightarrow> inert m"
  by (auto simp: list_all_iff dest: inert_elems)

lemma inert_class: "inert m \<Longrightarrow> cl \<in> set katex_classes \<Longrightarrow> \<not> has_class cl m"
  by (cases m) (auto simp: list_all_iff)

lemma inert_tag: "inert m \<Longrightarrow> \<not> has_tag ''annotation'' m"
  by (cases m) auto

lemma inert_filter_class:
  "list_all inert ks \<Longrightarrow> cl \<in> set katex_classes \<Longrightarrow>
   filter (has_class cl) (concat (map elems ks)) = []"
  unfolding filter_empty_conv using inert_list_elems inert_class by blast

lemma inert_find_tag:
  "list_all inert ks \<Longrightarrow> List.find (has_tag ''annotation'') (concat (map elems ks)) = None"
  unfolding find_None_iff using inert_list_elems inert_tag by blast

lemma adjacent_none:
  "\<forall>m \<in> set (concat (map elems ks)). \<not> has_class b m \<Longrightarrow> adjacent a b prev ks = []"
  by (induction a b prev ks rule: adjacent.induct) auto

lemma inert_adjacent:
  "list_all inert ks \<Longrightarrow> b \<in> set katex_classes \<Longrightarrow> adjacent a b prev ks = []"
  by (rule adjacent_none) (use inert_list_elems inert_class in blast)

lemma find_annotation:
  assumes "list_all inert pres"
  shows "List.find (has_tag ''annotation'') (elems (katex_part src I pres vis)) =
     Some (Elem (annotation_id I) ''annotation'' [] [Text src])"
  using inert_find_tag [OF assms] by (simp add: katex_part_def find_append_None)

subsection \<open>What the selectors find in a rendered tree\<close>

lemma sel_class_tree:
  assumes cl: "cl = (if m then ''katex-display'' else ''katex'')"
  shows "proper r \<Longrightarrow>
    map (\<lambda>n. the (node_id n)) (filter (has_class cl) (elems (to_dom r))) = block_sel m r"
proof (induction r)
  case (RText s)
  show ?case by simp
next
  case (RMath disp src I pres vis)
  have k: "cl \<in> set katex_classes" using cl by (simp add: katex_classes_def)
  have p: "filter (has_class cl) (concat (map elems pres)) = []"
    using RMath.prems k by (simp add: inert_filter_class)
  have v: "filter (has_class cl) (concat (map elems v)) = []" if "vis = Some v" for v
    using RMath.prems k that by (simp add: inert_filter_class)
  show ?case
  proof (cases m)
    case True
    then have "cl = ''katex-display''" using cl by simp
    with p v True show ?thesis by (cases vis) (simp_all add: katex_part_def)
  next
    case False
    then have "cl = ''katex''" using cl by simp
    with p v False show ?thesis by (cases vis) (simp_all add: katex_part_def)
  qed
next
  case (RElem i t c ks)
  then have c: "cl \<notin> set c" using cl by (auto simp: katex_classes_def list_all_iff)
  have "\<And>k. k \<in> set ks \<Longrightarrow> proper k" using RElem.prems by (simp add: list_all_iff)
  then have "\<And>k. k \<in> set ks \<Longrightarrow>
      map (\<lambda>n. the (node_id n)) (filter (has_class cl) (elems (to_dom k))) = block_sel m k"
    using RElem.IH by blast
  then have "map (\<lambda>k. map (\<lambda>n. the (node_id n)) (filter (has_class cl) (elems (to_dom k)))) ks =
      map (block_sel m) ks" by simp
  then show ?case using c by (simp add: filter_concat map_concat comp_def cong: map_cong)
qed

lemma select_class_fragment:
  assumes "cl = (if m then ''katex-display'' else ''katex'')"
    and "proper (RElem f t c rs)" and "lookup d f = Some (to_dom (RElem f t c rs))"
  shows "select_class cl f d = block_sel m (RElem f t c rs)"
proof -
  have "cl \<notin> set c" using assms(1,2) by (auto simp: katex_classes_def list_all_iff)
  with sel_class_tree [OF assms(1,2)]
  have "map (\<lambda>n. the (node_id n)) (filter (has_class cl) (concat (map elems (map to_dom rs)))) =
      block_sel m (RElem f t c rs)" by simp
  then show ?thesis using assms(3)
    by (simp add: select_class_def querySelectorAll_class_def descendants_def)
qed

lemma mathml_adjacent:
  assumes "list_all inert pres"
  shows "adjacent ''katex-mathml'' ''katex-html'' p (pres @ [Elem an ''annotation'' [] [Text src]]) = []"
proof (rule adjacent_none)
  have "''katex-html'' \<in> set katex_classes" by (simp add: katex_classes_def)
  then have "\<forall>m \<in> set (concat (map elems pres)). \<not> has_class ''katex-html'' m"
    using inert_list_elems [OF assms] inert_class by blast
  then show "\<forall>m \<in> set (concat (map elems (pres @ [Elem an ''annotation'' [] [Text src]]))).
      \<not> has_class ''katex-html'' m" by auto
qed

lemma katex_part_adjacent:
  assumes "list_all inert pres" and "case vis of None \<Rightarrow> True | Some v \<Rightarrow> list_all inert v"
  shows "map (\<lambda>m. the (node_id m))
      (adjacent ''katex-mathml'' ''katex-html'' False [katex_part src I pres vis]) =
     (case vis of None \<Rightarrow> [] | Some v \<Rightarrow> [html_id I])"
proof (cases vis)
  case None
  then show ?thesis by (simp add: katex_part_def mathml_adjacent [OF assms(1)])
next
  case (Some v)
  with assms(2) have "list_all inert v" by simp
  then have "adjacent ''katex-mathml'' ''katex-html'' False v = []"
    by (rule inert_adjacent) (simp add: katex_classes_def)
  with Some show ?thesis by (simp add: katex_part_def mathml_adjacent [OF assms(1)])
qed

lemma adjacent_list:
  assumes "\<And>x prev. x \<in> set rs \<Longrightarrow>
     \<exists>prev'. \<forall>ns. map (\<lambda>m. the (node_id m))
        (adjacent ''katex-mathml'' ''katex-html'' prev (to_dom x # ns)) =
       html_ids x @ map (\<lambda>m. the (node_id m)) (adjacent ''katex-mathml'' ''katex-html'' prev' ns)"
  shows "map (\<lambda>m. the (node_id m)) (adjacent ''katex-mathml'' ''katex-html'' prev (map to_dom rs)) =
     concat (map html_ids rs)"
  using assms
proof (induction rs arbitrary: prev)
  case Nil
  show ?case by simp
next
  case (Cons x xs)
  have "x \<in> set (x # xs)" by simp
  from Cons.prems [OF this, of prev] obtain prev' where
    p: "\<And>ns. map (\<lambda>m. the (node_id m))
        (adjacent ''katex-mathml'' ''katex-html'' prev (to_dom x # ns)) =
       html_ids x @ map (\<lambda>m. the (node_id m)) (adjacent ''katex-mathml'' ''katex-html'' prev' ns)"
    by blast
  have "map (\<lambda>m. the (node_id m)) (adjacent ''katex-mathml'' ''katex-html'' prev' (map to_dom xs)) =
      concat (map html_ids xs)"
  proof (rule Cons.IH)
    fix y prev
    assume "y \<in> set xs"
    then have "y \<in> set (x # xs)" by simp
    from Cons.prems [OF this]
    show "\<exists>prev'. \<forall>ns. map (\<lambda>m. the (node_id m))
        (adjacent ''katex-mathml'' ''katex-html'' prev (to_dom y # ns)) =
       html_ids y @ map (\<lambda>m. the (node_id m)) (adjacent ''katex-mathml'' ''katex-html'' prev' ns)" .
  qed
  with p [of "map to_dom xs"] show ?case by simp
qed

lemma adjacent_tree:
  "proper x \<Longrightarrow>
   \<exists>prev'. \<forall>ns. map (\<lambda>m. the (node_id m))
        (adjacent ''katex-mathml'' ''katex-html'' prev (to_dom x # ns)) =
       html_ids x @ map (\<lambda>m. the (node_id m)) (adjacent ''katex-mathml'' ''katex-html'' prev' ns)"
proof (induction x arbitrary: prev)
  case (RText s)
  show ?case by (rule exI [of _ prev]) simp
next
  case (RMath disp src I pres vis)
  then have i: "list_all inert pres" "case vis of None \<Rightarrow> True | Some v \<Rightarrow> list_all inert v"
    by simp_all
  have "\<forall>ns. map (\<lambda>m. the (node_id m))
        (adjacent ''katex-mathml'' ''katex-html'' prev (to_dom (RMath disp src I pres vis) # ns)) =
       html_ids (RMath disp src I pres vis) @
       map (\<lambda>m. the (node_id m)) (adjacent ''katex-mathml'' ''katex-html'' False ns)"
    using katex_part_adjacent [OF i, of src I] by simp
  then show ?case by blast
next
  case (RElem i t c ks)
  then have c: "''katex-mathml'' \<notin> set c" "''katex-html'' \<notin> set c"
    by (auto simp: katex_classes_def list_all_iff)
  have "map (\<lambda>m. the (node_id m)) (adjacent ''katex-mathml'' ''katex-html'' False (map to_dom ks)) =
      concat (map html_ids ks)"
  proof (rule adjacent_list)
    fix y prev
    assume y: "y \<in> set ks"
    then have "proper y" using RElem.prems by (simp add: list_all_iff)
    from RElem.IH [OF y this]
    show "\<exists>prev'. \<forall>ns. map (\<lambda>m. the (node_id m))
        (adjacent ''katex-mathml'' ''katex-html'' prev (to_dom y # ns)) =
       html_ids y @ map (\<lambda>m. the (node_id m)) (adjacent ''katex-mathml'' ''katex-html'' prev' ns)" .
  qed
  then have "\<forall>ns. map (\<lambda>m. the (node_id m))
        (adjacent ''katex-mathml'' ''katex-html'' prev (to_dom (RElem i t c ks) # ns)) =
       html_ids (RElem i t c ks) @
       map (\<lambda>m. the (node_id m)) (adjacent ''katex-mathml'' ''katex-html'' False ns)"
    using c by simp
  then show ?case by blast
qed

lemma select_html_fragment:
  assumes "proper (RElem f t c rs)"
  shows "querySelectorAll_adjacent ''katex-mathml'' ''katex-html'' (to_dom (RElem f t c rs)) =
     html_ids (RElem f t c rs)"
proof -
  have "map (\<lambda>m. the (node_id m)) (adjacent ''katex-mathml'' ''katex-html'' False (map to_dom rs)) =
      concat (map html_ids rs)"
  proof (rule adjacent_list)
    fix y prev
    assume "y \<in> set rs"
    then have "proper y" using assms by (simp add: list_all_iff)
    then show "\<exists>prev'. \<forall>ns. map (\<lambda>m. the (node_id m))
        (adjacent ''katex-mathml'' ''katex-html'' prev (to_dom y # ns)) =
       html_ids y @ map (\<lambda>m. the (node_id m)) (adjacent ''katex-mathml'' ''katex-html'' prev' ns)"
      by (rule adjacent_tree)
  qed
  then show ?thesis by (simp add: querySelectorAll_adjacent_def)
qed

subsection \<open>Steps on a block in its context\<close>

lemma hole_element:
  assumes "doc d = plug (Frame i t c l r # C) (a @ [Elem w t' c' ks] @ b)"
    and "distinct (ids_list (doc d))"
  shows "lookup d w = Some (Elem w t' c' ks)" and "parentNode d w = ElementParent i"
    and "map_option node_tag (lookup d i) = Some t"
proof -
  let ?p = "Elem i t c (l @ (a @ [Elem w t' c' ks] @ b) @ r)"
  have d: "doc d = plug C [?p]" using assms(1) by simp
  have p: "?p \<in> set (concat (map elems (doc d)))" unfolding d by (rule elems_plug) simp
  have m: "Elem w t' c' ks \<in> set (concat (map elems (doc d)))"
    unfolding assms(1) by (rule elems_plug) simp
  show "lookup d w = Some (Elem w t' c' ks)" using lookup_doc [OF assms(2) m] by simp
  show "parentNode d w = ElementParent i"
    by (rule parentNode_doc [OF assms(2) p, of "Elem w t' c' ks"]) simp_all
  show "map_option node_tag (lookup d i) = Some t" using lookup_doc [OF assms(2) p] by simp
qed

lemma set_outerHTML_text:
  assumes "doc d = plug (Frame i t c l r # C) (a @ [Elem w t' c' ks] @ b)"
    and "distinct (ids_list (doc d))"
    and "parse_fragment B t markup = [Text x]"
  shows "\<exists>d'. set_outerHTML B w markup d = Inr d' \<and>
     doc d' = plug (Frame i t c l r # C) (a @ [Text x] @ b)"
proof -
  note h = hole_element [OF assms(1,2)]
  from h(3) obtain pe where pe: "lookup d i = Some pe" "node_tag pe = t" by auto
  have "doc (replace_node w [Text x] d) = plug (Frame i t c l r # C) (a @ [Text x] @ b)"
    using assms(1,2) by (rule replace_node_plug(1))
  then show ?thesis using h(2) pe assms(3) by (simp add: set_outerHTML_def)
qed

lemma remove_html_block:
  assumes "doc d = plug (Frame i t c l r # C) [to_dom (RMath disp src I pres (Some v))]"
    and "distinct (ids_list (doc d))"
  shows "doc (remove_element (html_id I) d) =
     plug (Frame i t c l r # C) [to_dom (RMath disp src I pres None)]"
proof -
  let ?mm = "Elem (mathml_id I) ''span'' [''katex-mathml'']
     [Elem (math_id I) ''math'' []
        [Elem (semantics_id I) ''semantics'' []
           (pres @ [Elem (annotation_id I) ''annotation'' [] [Text src]])]]"
  let ?W = "if disp
     then [Frame (display_id I) ''span'' [''katex-display''] [] [],
           Frame (wrapper_id I) ''span'' [] [] []]
     else [Frame (wrapper_id I) ''span'' [] [] []]"
  let ?K = "Frame (katex_id I) ''span'' [''katex''] [] [] # ?W @ Frame i t c l r # C"
  have d: "doc d = plug ?K ([?mm] @ [Elem (html_id I) ''span'' [''katex-html''] v] @ [])"
    using assms(1) by (simp add: katex_part_def)
  note h = hole_element [OF d assms(2)]
  have "doc (replace_node (html_id I) [] d) = plug ?K ([?mm] @ [] @ [])"
    using d assms(2) by (rule replace_node_plug(1))
  then show ?thesis using h(2) by (simp add: remove_element_def katex_part_def)
qed

lemma restore_display_block:
  assumes "list_all inert pres"
    and "doc d = plug (Frame i t c l r # C) [to_dom (RMath True src I pres vis)]"
    and "distinct (ids_list (doc d))"
    and "restored B t True src = [Text x]"
  shows "\<exists>d'. restore_block B False display_delims (display_id I) d = Inr d' \<and>
     doc d' = plug (Frame i t c l r # C) [Text x]"
proof -
  let ?D = "Elem (display_id I) ''span'' [''katex-display''] [katex_part src I pres vis]"
  have d1: "doc d = plug (Frame (wrapper_id I) ''span'' [] [] [] # Frame i t c l r # C)
      ([] @ [?D] @ [])"
    using assms(2) by simp
  note h = hole_element [OF d1 assms(3)]
  have d0: "doc d = plug (Frame i t c l r # C) ([] @ [Elem (wrapper_id I) ''span'' [] [?D]] @ [])"
    using assms(2) by simp
  have q: "querySelector_tag ''annotation'' ?D =
      Some (Elem (annotation_id I) ''annotation'' [] [Text src])"
    using find_annotation [OF assms(1)] by (simp add: querySelector_tag_def descendants_def)
  have m: "parse_fragment B t (fst display_delims @ serialize B [Text src] @ snd display_delims) =
      [Text x]"
    using assms(4) by (simp add: restored_def delims_of_def)
  from set_outerHTML_text [OF d0 assms(3) m]
  show ?thesis using h(1,2) q by (simp add: restore_block_def)
qed

lemma restore_inline_block:
  assumes "list_all inert pres"
    and "doc d = plug (Frame i t c l r # C) [to_dom (RMath False src I pres vis)]"
    and "distinct (ids_list (doc d))"
    and "restored B t False src = [Text x]"
  shows "\<exists>d'. restore_block B True inline_delims (katex_id I) d = Inr d' \<and>
     doc d' = plug (Frame i t c l r # C) [Text x]"
proof -
  obtain ks where k: "katex_part src I pres vis = Elem (katex_id I) ''span'' [''katex''] ks"
    by (simp add: katex_part_def)
  have d1: "doc d = plug (Frame (wrapper_id I) ''span'' [] [] [] # Frame i t c l r # C)
      ([] @ [Elem (katex_id I) ''span'' [''katex''] ks] @ [])"
    using assms(2) k by simp
  note h = hole_element [OF d1 assms(3)]
  have d0: "doc d = plug (Frame i t c l r # C)
      ([] @ [Elem (wrapper_id I) ''span'' [] [Elem (katex_id I) ''span'' [''katex''] ks]] @ [])"
    using assms(2) k by simp
  have q: "querySelector_tag ''annotation'' (Elem (katex_id I) ''span'' [''katex''] ks) =
      Some (Elem (annotation_id I) ''annotation'' [] [Text src])"
    using find_annotation [OF assms(1), of src I vis] unfolding k
    by (simp add: querySelector_tag_def descendants_def)
  have m: "parse_fragment B t (fst inline_delims @ serialize B [Text src] @ snd inline_delims) =
      [Text x]"
    using assms(4) by (simp add: restored_def delims_of_def)
  from set_outerHTML_text [OF d0 assms(3) m]
  show ?thesis using h(1,2) q by (simp add: restore_block_def)
qed

lemma strip_block_ids:
  assumes "distinct (ids (to_dom (RMath disp src I pres (Some v))))"
  shows "distinct (ids (to_dom (RMath disp src I pres None)))"
    and "set (ids (to_dom (RMath disp src I pres None))) \<subseteq>
         set (ids (to_dom (RMath disp src I pres (Some v))))"
  using assms by (cases disp; auto simp: katex_part_def)+


section \<open>The raw extractor on a rendered fragment\<close>

lemma proper_child: "proper (RElem i t c ks) \<Longrightarrow> k \<in> set ks \<Longrightarrow> proper k"
  by (simp add: list_all_iff)

lemma proper_strip_html: "proper r \<Longrightarrow> proper (strip_html r)"
  by (induction r) (auto simp: list_all_iff)

lemma proper_raw_if: "proper r \<Longrightarrow> proper (raw_if B m t r)"
  by (induction r arbitrary: t) (auto simp: list_all_iff)

lemma textual_strip_html: "textual B t (strip_html r) = textual B t r"
  by (induction r arbitrary: t) (simp_all add: list_all_iff)

lemma textual_raw_if: "textual B t r \<Longrightarrow> textual B t (raw_if B m t r)"
  by (induction r arbitrary: t) (auto simp: list_all_iff)

lemma textual_block:
  "textual B t (RMath disp src I pres vis) \<Longrightarrow> \<exists>x. restored B t disp src = [Text x]"
  by (auto split: list.splits node.splits)

lemma no_display_left: "block_sel True (raw_if B True t r) = []"
  by (induction r arbitrary: t) auto

lemma distinct_hole: "distinct (ids_list (plug K h)) \<Longrightarrow> distinct (ids_list h)"
  by (simp add: distinct_ids_plug)

lemma distinct_text_hole:
  "distinct (ids_list (plug K h)) \<Longrightarrow> distinct (ids_list (plug K [Text s]))"
  by (rule distinct_plug_replace) simp_all

subsection \<open>The steps of the three passes\<close>

lemma html_block:
  assumes "proper (RMath disp src I pres vis)"
    and "doc d = plug (Frame i t c l r # C) [to_dom (RMath disp src I pres vis)]"
    and "distinct (ids_list (doc d))"
  shows "\<exists>d'. forM (html_ids (RMath disp src I pres vis)) (\<lambda>x s. Inr (remove_element x s)) d = Inr d' \<and>
     doc d' = plug (Frame i t c l r # C) [to_dom (strip_html (RMath disp src I pres vis))] \<and>
     distinct (ids_list (doc d'))"
proof (cases vis)
  case None
  then show ?thesis using assms(2,3) by simp
next
  case (Some v)
  have d: "doc d = plug (Frame i t c l r # C) [to_dom (RMath disp src I pres (Some v))]"
    using assms(2) Some by simp
  note r = remove_html_block [OF d assms(3)]
  have p: "distinct (ids_list (plug (Frame i t c l r # C) [to_dom (RMath disp src I pres (Some v))]))"
    using assms(3) d by simp
  then have "distinct (ids_list [to_dom (RMath disp src I pres (Some v))])" by (rule distinct_hole)
  then have "distinct (ids (to_dom (RMath disp src I pres (Some v))))" by simp
  note s = strip_block_ids [OF this]
  have "distinct (ids_list (plug (Frame i t c l r # C) [to_dom (RMath disp src I pres None)]))"
    using p by (rule distinct_plug_replace) (use s in simp_all)
  then have "distinct (ids_list (doc (remove_element (html_id I) d)))" by (simp only: r)
  with r Some show ?thesis by simp
qed

lemma display_block:
  assumes "proper (RMath disp src I pres vis) \<and> textual B t (RMath disp src I pres vis)"
    and "doc d = plug (Frame i t c l r # C) [to_dom (RMath disp src I pres vis)]"
    and "distinct (ids_list (doc d))"
  shows "\<exists>d'. forM (block_sel True (RMath disp src I pres vis))
       (restore_block B False display_delims) d = Inr d' \<and>
     doc d' = plug (Frame i t c l r # C) [to_dom (raw_if B True t (RMath disp src I pres vis))] \<and>
     distinct (ids_list (doc d'))"
proof (cases disp)
  case False
  then show ?thesis using assms(2,3) by simp
next
  case True
  have i: "list_all inert pres" using assms(1) by simp
  have "textual B t (RMath True src I pres vis)" using assms(1) True by simp
  from textual_block [OF this] obtain x where x: "restored B t True src = [Text x]" by blast
  have d: "doc d = plug (Frame i t c l r # C) [to_dom (RMath True src I pres vis)]"
    using assms(2) True by simp
  from restore_display_block [OF i d assms(3) x] obtain d' where
    d': "restore_block B False display_delims (display_id I) d = Inr d'"
    "doc d' = plug (Frame i t c l r # C) [Text x]" by blast
  have "distinct (ids_list (plug (Frame i t c l r # C) [to_dom (RMath True src I pres vis)]))"
    using assms(3) d by simp
  then have "distinct (ids_list (plug (Frame i t c l r # C) [Text x]))"
    by (rule distinct_text_hole)
  then have "distinct (ids_list (doc d'))" by (simp only: d'(2))
  with d' True x show ?thesis by simp
qed

lemma inline_block:
  assumes "proper (RMath disp src I pres vis) \<and> textual B t (RMath disp src I pres vis) \<and>
      block_sel True (RMath disp src I pres vis) = []"
    and "doc d = plug (Frame i t c l r # C) [to_dom (RMath disp src I pres vis)]"
    and "distinct (ids_list (doc d))"
  shows "\<exists>d'. forM (block_sel False (RMath disp src I pres vis))
       (restore_block B True inline_delims) d = Inr d' \<and>
     doc d' = plug (Frame i t c l r # C) [to_dom (raw_if B False t (RMath disp src I pres vis))] \<and>
     distinct (ids_list (doc d'))"
proof -
  have F: "disp = False" using assms(1) by (cases disp) simp_all
  have i: "list_all inert pres" using assms(1) by simp
  have "textual B t (RMath False src I pres vis)" using assms(1) F by simp
  from textual_block [OF this] obtain x where x: "restored B t False src = [Text x]" by blast
  have d: "doc d = plug (Frame i t c l r # C) [to_dom (RMath False src I pres vis)]"
    using assms(2) F by simp
  from restore_inline_block [OF i d assms(3) x] obtain d' where
    d': "restore_block B True inline_delims (katex_id I) d = Inr d'"
    "doc d' = plug (Frame i t c l r # C) [Text x]" by blast
  have "distinct (ids_list (plug (Frame i t c l r # C) [to_dom (RMath False src I pres vis)]))"
    using assms(3) d by simp
  then have "distinct (ids_list (plug (Frame i t c l r # C) [Text x]))"
    by (rule distinct_text_hole)
  then have "distinct (ids_list (doc d'))" by (simp only: d'(2))
  with d' F x show ?thesis by simp
qed

subsection \<open>The passes on a tree in a context\<close>

lemma html_tree:
  assumes "proper x" and "doc d = plug (Frame i t c l r # C) [to_dom x]"
    and "distinct (ids_list (doc d))"
  shows "\<exists>d'. forM (html_ids x) (\<lambda>x s. Inr (remove_element x s)) d = Inr d' \<and>
     doc d' = plug (Frame i t c l r # C) [to_dom (strip_html x)] \<and> distinct (ids_list (doc d'))"
proof (rule pass_tree [where ok = "\<lambda>u. proper" and sel = html_ids and tr = "\<lambda>u. strip_html"
      and step = "\<lambda>x s. Inr (remove_element x s)", OF _ _ _ _ _ _ assms])
  fix i t c ks k
  assume "proper (RElem i t c ks)" "k \<in> set ks"
  then show "proper k" by (rule proper_child)
next
  fix i t c l r C and d :: dom and disp src I pres vis
  assume "proper (RMath disp src I pres vis)"
    "doc d = plug (Frame i t c l r # C) [to_dom (RMath disp src I pres vis)]"
    "distinct (ids_list (doc d))"
  then show "\<exists>d'. forM (html_ids (RMath disp src I pres vis)) (\<lambda>x s. Inr (remove_element x s)) d
       = Inr d' \<and>
     doc d' = plug (Frame i t c l r # C) [to_dom (strip_html (RMath disp src I pres vis))] \<and>
     distinct (ids_list (doc d'))" by (rule html_block)
qed simp_all

lemma display_child:
  "proper (RElem i t c ks) \<and> textual B u (RElem i t c ks) \<Longrightarrow> k \<in> set ks \<Longrightarrow>
   proper k \<and> textual B t k"
  by (simp add: list_all_iff)

lemma display_tree:
  assumes "proper x \<and> textual B t x" and "doc d = plug (Frame i t c l r # C) [to_dom x]"
    and "distinct (ids_list (doc d))"
  shows "\<exists>d'. forM (block_sel True x) (restore_block B False display_delims) d = Inr d' \<and>
     doc d' = plug (Frame i t c l r # C) [to_dom (raw_if B True t x)] \<and>
     distinct (ids_list (doc d'))"
proof (rule pass_tree [where ok = "\<lambda>u x. proper x \<and> textual B u x" and sel = "block_sel True"
      and tr = "raw_if B True" and step = "restore_block B False display_delims",
      OF _ _ _ _ _ _ assms])
  fix u i t c ks k
  assume "proper (RElem i t c ks) \<and> textual B u (RElem i t c ks)" "k \<in> set ks"
  then show "proper k \<and> textual B t k" by (rule display_child)
next
  fix i t c l r C and d :: dom and disp src I pres vis
  assume "proper (RMath disp src I pres vis) \<and> textual B t (RMath disp src I pres vis)"
    "doc d = plug (Frame i t c l r # C) [to_dom (RMath disp src I pres vis)]"
    "distinct (ids_list (doc d))"
  then show "\<exists>d'. forM (block_sel True (RMath disp src I pres vis))
       (restore_block B False display_delims) d = Inr d' \<and>
     doc d' = plug (Frame i t c l r # C) [to_dom (raw_if B True t (RMath disp src I pres vis))] \<and>
     distinct (ids_list (doc d'))" by (rule display_block)
qed simp_all

lemma inline_child:
  "proper (RElem i t c ks) \<and> textual B u (RElem i t c ks) \<and> block_sel True (RElem i t c ks) = [] \<Longrightarrow>
   k \<in> set ks \<Longrightarrow> proper k \<and> textual B t k \<and> block_sel True k = []"
  by (simp add: list_all_iff)

lemma inline_tree:
  assumes "proper x \<and> textual B t x \<and> block_sel True x = []"
    and "doc d = plug (Frame i t c l r # C) [to_dom x]"
    and "distinct (ids_list (doc d))"
  shows "\<exists>d'. forM (block_sel False x) (restore_block B True inline_delims) d = Inr d' \<and>
     doc d' = plug (Frame i t c l r # C) [to_dom (raw_if B False t x)] \<and>
     distinct (ids_list (doc d'))"
proof (rule pass_tree [where ok = "\<lambda>u x. proper x \<and> textual B u x \<and> block_sel True x = []"
      and sel = "block_sel False" and tr = "raw_if B False"
      and step = "restore_block B True inline_delims", OF _ _ _ _ _ _ assms])
  fix u i t c ks k
  assume "proper (RElem i t c ks) \<and> textual B u (RElem i t c ks) \<and>
    block_sel True (RElem i t c ks) = []" "k \<in> set ks"
  then show "proper k \<and> textual B t k \<and> block_sel True k = []" by (rule inline_child)
next
  fix i t c l r C and d :: dom and disp src I pres vis
  assume "proper (RMath disp src I pres vis) \<and> textual B t (RMath disp src I pres vis) \<and>
      block_sel True (RMath disp src I pres vis) = []"
    "doc d = plug (Frame i t c l r # C) [to_dom (RMath disp src I pres vis)]"
    "distinct (ids_list (doc d))"
  then show "\<exists>d'. forM (block_sel False (RMath disp src I pres vis))
       (restore_block B True inline_delims) d = Inr d' \<and>
     doc d' = plug (Frame i t c l r # C) [to_dom (raw_if B False t (RMath disp src I pres vis))] \<and>
     distinct (ids_list (doc d'))" by (rule inline_block)
qed simp_all

subsection \<open>The passes on a fragment\<close>

lemma fragment_lookup:
  assumes "doc d = plug C [Elem f t c ks]" and "distinct (ids_list (doc d))"
  shows "lookup d f = Some (Elem f t c ks)"
proof -
  have "Elem f t c ks \<in> set (concat (map elems (doc d)))"
    unfolding assms(1) by (rule elems_plug) simp
  from lookup_doc [OF assms(2) this] show ?thesis by simp
qed

lemma remove_html_pass_rendered:
  assumes "proper (RElem f t c rs)" and "doc d = plug C [to_dom (RElem f t c rs)]"
    and "distinct (ids_list (doc d))"
  shows "doc (remove_html_pass f d) = plug C [to_dom (strip_html (RElem f t c rs))]"
    and "distinct (ids_list (doc (remove_html_pass f d)))"
proof -
  have "\<exists>d'. forM (html_ids (RElem f t c rs)) (\<lambda>x s. Inr (remove_element x s)) d = Inr d' \<and>
     doc d' = plug C [to_dom (strip_html (RElem f t c rs))] \<and> distinct (ids_list (doc d'))"
  proof (rule pass_elem [where sel = html_ids and tr = "\<lambda>u. strip_html"
        and step = "\<lambda>x s. Inr (remove_element x s)", OF _ _ _ assms(2,3)])
    fix x l r and d :: dom
    assume "x \<in> set rs" "doc d = plug (Frame f t c l r # C) [to_dom x]"
      "distinct (ids_list (doc d))"
    from proper_child [OF assms(1) this(1)] this(2,3)
    show "\<exists>d'. forM (html_ids x) (\<lambda>x s. Inr (remove_element x s)) d = Inr d' \<and>
       doc d' = plug (Frame f t c l r # C) [to_dom (strip_html x)] \<and>
       distinct (ids_list (doc d'))"
      by (rule html_tree)
  qed simp_all
  moreover have "lookup d f = Some (to_dom (RElem f t c rs))"
    using fragment_lookup [of d C f t c "map to_dom rs"] assms(2,3) by simp
  then have "remove_html_pass f d = fold remove_element (html_ids (RElem f t c rs)) d"
    using select_html_fragment [OF assms(1)] by (simp add: remove_html_pass_def)
  ultimately show "doc (remove_html_pass f d) = plug C [to_dom (strip_html (RElem f t c rs))]"
    and "distinct (ids_list (doc (remove_html_pass f d)))"
    by (auto simp: forM_fold)
qed

lemma display_pass_rendered:
  assumes "proper (RElem f t c rs)" and "textual B u (RElem f t c rs)"
    and "doc d = plug C [to_dom (RElem f t c rs)]"
    and "distinct (ids_list (doc d))"
  shows "\<exists>d'. display_pass B f d = Inr d' \<and>
     doc d' = plug C [to_dom (raw_if B True u (RElem f t c rs))] \<and> distinct (ids_list (doc d'))"
proof -
  have ok: "proper (RElem f t c rs) \<and> textual B u (RElem f t c rs)"
    using assms(1,2) by (rule conjI)
  have "\<exists>d'. forM (block_sel True (RElem f t c rs)) (restore_block B False display_delims) d = Inr d' \<and>
     doc d' = plug C [to_dom (raw_if B True u (RElem f t c rs))] \<and> distinct (ids_list (doc d'))"
  proof (rule pass_elem [where sel = "block_sel True" and tr = "raw_if B True"
        and step = "restore_block B False display_delims", OF _ _ _ assms(3,4)])
    fix x l r and d :: dom
    assume "x \<in> set rs" "doc d = plug (Frame f t c l r # C) [to_dom x]"
      "distinct (ids_list (doc d))"
    from display_child [OF ok this(1)] this(2,3)
    show "\<exists>d'. forM (block_sel True x) (restore_block B False display_delims) d = Inr d' \<and>
       doc d' = plug (Frame f t c l r # C) [to_dom (raw_if B True t x)] \<and>
       distinct (ids_list (doc d'))"
      by (rule display_tree)
  qed simp_all
  moreover have "lookup d f = Some (to_dom (RElem f t c rs))"
    using fragment_lookup [of d C f t c "map to_dom rs"] assms(3,4) by simp
  then have "select_class ''katex-display'' f d = block_sel True (RElem f t c rs)"
    by (intro select_class_fragment [OF _ assms(1)]) simp_all
  ultimately show ?thesis by (simp add: display_pass_def)
qed

lemma inline_pass_rendered:
  assumes "proper (RElem f t c rs)" and "textual B u (RElem f t c rs)"
    and "block_sel True (RElem f t c rs) = []"
    and "doc d = plug C [to_dom (RElem f t c rs)]"
    and "distinct (ids_list (doc d))"
  shows "\<exists>d'. inline_pass B f d = Inr d' \<and>
     doc d' = plug C [to_dom (raw_if B False u (RElem f t c rs))] \<and> distinct (ids_list (doc d'))"
proof -
  have ok: "proper (RElem f t c rs) \<and> textual B u (RElem f t c rs) \<and>
      block_sel True (RElem f t c rs) = []"
    using assms(1,2,3) by (intro conjI)
  have "\<exists>d'. forM (block_sel False (RElem f t c rs)) (restore_block B True inline_delims) d = Inr d' \<and>
     doc d' = plug C [to_dom (raw_if B False u (RElem f t c rs))] \<and> distinct (ids_list (doc d'))"
  proof (rule pass_elem [where sel = "block_sel False" and tr = "raw_if B False"
        and step = "restore_block B True inline_delims", OF _ _ _ assms(4,5)])
    fix x l r and d :: dom
    assume "x \<in> set rs" "doc d = plug (Frame f t c l r # C) [to_dom x]"
      "distinct (ids_list (doc d))"
    from inline_child [OF ok this(1)] this(2,3)
    show "\<exists>d'. forM (block_sel False x) (restore_block B True inline_delims) d = Inr d' \<and>
       doc d' = plug (Frame f t c l r # C) [to_dom (raw_if B False t x)] \<and>
       distinct (ids_list (doc d'))"
      by (rule inline_tree)
  qed simp_all
  moreover have "lookup d f = Some (to_dom (RElem f t c rs))"
    using fragment_lookup [of d C f t c "map to_dom rs"] assms(4,5) by simp
  then have "select_class ''katex'' f d = block_sel False (RElem f t c rs)"
    by (intro select_class_fragment [OF _ assms(1)]) simp_all
  ultimately show ?thesis by (simp add: inline_pass_def)
qed

text \<open>
  The three passes in a row, on a rendered fragment wherever it stands in the document, when
  the parser returns a text for every block: the extractor returns, and the fragment is
  replaced by its raw form; the display pass has left no display block behind.
\<close>

lemma extractor_passes:
  assumes "proper (RElem f t c rs)" and "textual B u (RElem f t c rs)"
    and "doc d = plug C [to_dom (RElem f t c rs)]"
    and "distinct (ids_list (doc d))"
  shows "\<exists>d2 d3. display_pass B f (remove_html_pass f d) = Inr d2 \<and>
     doc d2 = plug C [to_dom (raw_if B True [] (strip_html (RElem f t c rs)))] \<and>
     distinct (ids_list (doc d2)) \<and> proper (raw_if B True [] (strip_html (RElem f t c rs))) \<and>
     inline_pass B f d2 = Inr d3 \<and>
     doc d3 = plug C [to_dom (raw B (RElem f t c rs))] \<and> distinct (ids_list (doc d3))"
proof -
  let ?d1 = "remove_html_pass f d"
  let ?R1 = "RElem f t c (map strip_html rs)"
  let ?R2 = "RElem f t c (map (raw_if B True t) (map strip_html rs))"
  note h = remove_html_pass_rendered [OF assms(1,3,4)]
  have p1: "proper ?R1" using proper_strip_html [OF assms(1)] by simp
  have t1: "textual B [] ?R1" using assms(2) textual_strip_html [of B u "RElem f t c rs"] by simp
  have h1: "doc ?d1 = plug C [to_dom ?R1]" using h(1) by simp
  from display_pass_rendered [OF p1 t1 h1 h(2)] obtain d2 where
    d2: "display_pass B f ?d1 = Inr d2" "doc d2 = plug C [to_dom (raw_if B True [] ?R1)]"
    "distinct (ids_list (doc d2))" by blast
  have p2: "proper ?R2" using proper_raw_if [OF p1, of B True "[]"] by simp
  have t2: "textual B [] ?R2" using textual_raw_if [OF t1, of True] by simp
  have n2: "block_sel True ?R2 = []" using no_display_left [of B "[]" ?R1] by simp
  have h2: "doc d2 = plug C [to_dom ?R2]" using d2(2) by simp
  from inline_pass_rendered [OF p2 t2 n2 h2 d2(3)] obtain d3 where
    d3: "inline_pass B f d2 = Inr d3" "doc d3 = plug C [to_dom (raw_if B False [] ?R2)]"
    "distinct (ids_list (doc d3))" by blast
  have "doc d3 = plug C [to_dom (raw B (RElem f t c rs))]" using d3(2) by (simp add: raw_def)
  moreover have "doc d2 = plug C [to_dom (raw_if B True [] (strip_html (RElem f t c rs)))]"
    using d2(2) by simp
  moreover have "proper (raw_if B True [] (strip_html (RElem f t c rs)))" using p2 by simp
  ultimately show ?thesis using d2(1,3) d3(1,3) by blast
qed

lemma katexReplaceWithTex_rendered:
  assumes "proper (RElem f t c rs)" and "textual B u (RElem f t c rs)"
    and "doc d = plug C [to_dom (RElem f t c rs)]"
    and "distinct (ids_list (doc d))"
  shows "\<exists>d'. katexReplaceWithTex B f d = Inr d' \<and>
     doc d' = plug C [to_dom (raw B (RElem f t c rs))] \<and> distinct (ids_list (doc d'))"
proof -
  from extractor_passes [OF assms] obtain d2 d3 where
    "display_pass B f (remove_html_pass f d) = Inr d2" "inline_pass B f d2 = Inr d3"
    "doc d3 = plug C [to_dom (raw B (RElem f t c rs))]" "distinct (ids_list (doc d3))" by blast
  then show ?thesis by (simp add: katexReplaceWithTex_def)
qed

lemma raw_elem: "raw B (RElem f t c rs) =
    RElem f t c (map (raw_if B False t) (map (raw_if B True t) (map strip_html rs)))"
  by (simp add: raw_def)

lemma fragment_after:
  assumes "doc d = plug C [to_dom (raw B (RElem f t c rs))]" and "distinct (ids_list (doc d))"
  shows "lookup d f = Some (to_dom (raw B (RElem f t c rs)))"
  using fragment_lookup [of d C f t c] assms by (simp add: raw_elem)

lemma reproduces_textual: "reproduces B t r \<Longrightarrow> textual B t r"
  by (induction r arbitrary: t) (auto simp: list_all_iff)

lemma reproduced_text:
  "reproduces B t r \<Longrightarrow>
   node_text (to_dom (raw_if B False t (raw_if B True t (strip_html r)))) = source_of r"
proof (induction r arbitrary: t)
  case (RText s)
  show ?case by simp
next
  case (RMath disp src I pres vis)
  then show ?case by (cases disp) simp_all
next
  case (RElem i u c ks)
  then have "\<And>k. k \<in> set ks \<Longrightarrow>
      node_text (to_dom (raw_if B False u (raw_if B True u (strip_html k)))) = source_of k"
    by (simp add: list_all_iff)
  then show ?case by (simp add: comp_def cong: map_cong)
qed

lemma raw_text:
  assumes "reproduces B u (RElem f t c rs)"
  shows "node_text (to_dom (raw B (RElem f t c rs))) = source_of (RElem f t c rs)"
proof -
  have "\<And>k. k \<in> set rs \<Longrightarrow>
      node_text (to_dom (raw_if B False t (raw_if B True t (strip_html k)))) = source_of k"
    using assms reproduced_text by (simp add: list_all_iff)
  then show ?thesis by (simp add: raw_def comp_def cong: map_cong)
qed

lemma raw_plain:
  "proper r \<Longrightarrow> cl \<in> set katex_classes \<Longrightarrow>
   filter (has_class cl) (elems (to_dom (raw_if B False t (raw_if B True t (strip_html r))))) = []"
proof (induction r arbitrary: t)
  case (RText s)
  show ?case by simp
next
  case (RMath disp src I pres vis)
  show ?case by (cases disp) simp_all
next
  case (RElem i u c ks)
  then have c: "cl \<notin> set c" by (auto simp: list_all_iff)
  have "\<And>k. k \<in> set ks \<Longrightarrow>
      filter (has_class cl) (elems (to_dom (raw_if B False u (raw_if B True u (strip_html k))))) = []"
    using RElem by (simp add: list_all_iff)
  then show ?case using c by (simp add: filter_concat comp_def)
qed

lemma raw_no_markup:
  "proper r \<Longrightarrow> cl \<in> set katex_classes \<Longrightarrow> filter (has_class cl) (elems (to_dom (raw B r))) = []"
  unfolding raw_def by (rule raw_plain)


section \<open>The raw extractor on concrete documents\<close>

text \<open>
  Claim C5 fails on a display block without annotation: the display loop reads
  \<open>innerHTML\<close> of the missing annotation without the test that the inline loop makes, the
  call raises a type error, and the inline block behind it is left rendered (only its
  \<open>katex-html\<close> part is gone). The same block under the inline selector is skipped, and the
  block behind it restored.
\<close>

theorem katexReplaceWithTex_raises_on_display:
  "dom_result (katexReplaceWithTex html5 1 (dom_with broken_display)) =
     (Some TypeError,
      [Elem 0 ''html'' []
         [Elem 1 ''div'' [''content'']
            [Elem 2 ''span'' []
               [Elem 3 ''span'' [''katex-display'']
                  [Elem 4 ''span'' [''katex''] [Elem 5 ''span'' [''katex-mathml''] []]]],
             Elem 10 ''span'' []
               [Elem 11 ''span'' [''katex'']
                  [Elem 12 ''span'' [''katex-mathml'']
                     [Elem 13 ''math'' []
                        [Elem 14 ''semantics'' []
                           [Elem 15 ''mrow'' [] [Text (js ''x'')],
                            Elem 16 ''annotation'' [] [Text (js ''x'')]]]]]]]]]) \<and>
   dom_result (katexReplaceWithTex html5 1 (dom_with broken_inline)) =
     (None,
      [Elem 0 ''html'' []
         [Elem 1 ''div'' [''content'']
            [Elem 2 ''span'' [] [Elem 4 ''span'' [''katex''] [Elem 5 ''span'' [''katex-mathml''] []]],
             Text (js ''$x$'')]]])"
  by code_simp


section \<open>The round trip of rendering and extracting\<close>

lemma written_dollars: "written dollars r = source_of r"
proof (induction r)
  case (RMath disp src I pres vis)
  show ?case
    by (cases disp)
      (simp_all add: dollars_def delimited_def delims_of_def display_delims_def inline_delims_def)
qed (simp_all cong: map_cong)

lemma merge_text_text: "concat (map node_text (merge_text ns)) = concat (map node_text ns)"
  by (induction ns rule: merge_text.induct) simp_all

lemma unrendered_text: "node_text (unrendered w r) = written w r"
  by (induction r) (simp_all add: merge_text_text comp_def cong: map_cong)

lemma raw_fragment_plain:
  assumes "proper (RElem f t c rs)" and "lookup d f = Some (to_dom (raw B (RElem f t c rs)))"
  shows "list_all (\<lambda>cl. \<not> contains_class cl d f) katex_classes"
proof -
  have "\<not> contains_class cl d f" if "cl \<in> set katex_classes" for cl
  proof -
    from raw_no_markup [OF assms(1) that, of B]
    have "filter (has_class cl) (descendants (to_dom (raw B (RElem f t c rs)))) = []"
      by (simp add: raw_elem descendants_def split: if_splits)
    then have "List.find (has_class cl) (descendants (to_dom (raw B (RElem f t c rs)))) = None"
      by (simp add: find_None_iff filter_empty_conv)
    with assms(2) show ?thesis by (simp add: contains_class_def querySelector_class_def)
  qed
  then show ?thesis by (simp add: list_all_iff)
qed

subsection \<open>The browser of the examples\<close>

lemma decode_escape: "decode (escape s @ r) = s @ decode r"
proof (induction s)
  case Nil
  show ?case by (simp add: escape_def)
next
  case (Cons c s)
  have e: "escape (c # s) @ r = escape_char c @ escape s @ r" by (simp add: escape_def)
  show ?case unfolding e using Cons by (simp add: escape_char_def js_def)
qed

lemma newlines_id: "0x0D \<notin> set m \<Longrightarrow> newlines m = m"
  by (induction m rule: newlines.induct) auto

lemma escape_no_cr: "0x0D \<notin> set s \<Longrightarrow> 0x0D \<notin> set (escape s)"
  by (induction s) (auto simp: escape_def escape_char_def js_def)

text \<open>
  In a context other than \<open>html\<close>, this browser reproduces every body that holds neither a
  carriage return nor a null character.
\<close>

lemma html5_reproduces_body:
  assumes "0x0D \<notin> set src" and "0 \<notin> set src" and "t \<noteq> ''html''"
  shows "restored html5 t disp src = [Text (delimited disp src)]"
proof -
  let ?l = "fst (delims_of disp)" and ?r = "snd (delims_of disp)"
  have lr: "(?l = [0x24] \<or> ?l = [0x24, 0x24]) \<and> ?r = ?l"
    by (simp add: delims_of_def display_delims_def inline_delims_def)
  have m: "newlines (?l @ escape src @ ?r) = ?l @ escape src @ ?r"
    using lr escape_no_cr [OF assms(1)] by (intro newlines_id) auto
  have dr: "decode ?r = ?r" using lr by auto
  have "decode (?l @ escape src @ ?r) = ?l @ decode (escape src @ ?r)" using lr by auto
  then have d: "decode (?l @ escape src @ ?r) = ?l @ src @ ?r" by (simp add: decode_escape dr)
  have f: "filter (\<lambda>c. c \<noteq> 0) (?l @ src @ ?r) = ?l @ src @ ?r"
    using lr assms(2) by (auto simp: filter_id_conv)
  have "?l @ src @ ?r \<noteq> []" using lr by auto
  then show ?thesis using assms(3) m d f
    by (simp add: restored_def html5_def char_data_def text_node_def delimited_def)
qed

lemma html5_reproduces_tree: "plain_bodies r \<Longrightarrow> t \<noteq> ''html'' \<Longrightarrow> reproduces html5 t r"
  by (induction r arbitrary: t) (simp_all add: html5_reproduces_body list_all_iff)

lemma html5_reproduces: "plain_bodies (RElem f t c rs) \<Longrightarrow> reproduces html5 u (RElem f t c rs)"
  by (simp add: html5_reproduces_tree list_all_iff)

subsection \<open>The claim\<close>

text \<open>
  Claim C1 fails on a formula that holds a carriage return. Before rendering the item holds
  the text \<open>$a\<close>, carriage return, \<open>b$\<close>; the renderer leaves the block with that source in
  its annotation; the extractor serialises the annotation and has the markup parsed, the
  parser normalises the carriage return to a line feed, and the item holds \<open>$a\<close>, line feed,
  \<open>b$\<close>: not the source text, whose formula is in the canonical pair already.
\<close>

theorem carriage_return_comes_back_as_line_feed:
  "cr_raw_page = plug outline [unrendered dollars (RElem 1 ''div'' [''project''] cr_content)] \<and>
   doc (renderMathViaKatex katex_cr 1 (dom_with cr_raw_page)) =
     plug outline [to_dom (RElem 1 ''div'' [''project''] cr_content)] \<and>
   map_option node_text (lookup (dom_with cr_raw_page) 1) = Some [0x24, 0x61, 0x0D, 0x62, 0x24] \<and>
   written dollars (RElem 1 ''div'' [''project''] cr_content) = [0x24, 0x61, 0x0D, 0x62, 0x24] \<and>
   \<not> reproduces html5 [] (RElem 1 ''div'' [''project''] cr_content) \<and>
   dom_result (katexReplaceWithTex html5 1 (renderMathViaKatex katex_cr 1 (dom_with cr_raw_page))) =
     (None,
      [Elem 0 ''html'' []
         [Elem 1 ''div'' [''project'']
            [Elem 3 ''div'' [''content''] [Text [0x24, 0x61, 0x0A, 0x62, 0x24]]],
          Elem 2 ''div'' [''project''] [Elem 4 ''div'' [''content''] [Text (js ''b'')]]]])"
  by code_simp

text \<open>
  Claim C1, amended. Before rendering, the element holds the source text (\<open>unrendered\<close>, each
  formula written with one of the two delimiter pairs of its mode), and \<open>renderMathViaKatex\<close>
  leaves it as the renderer leaves this text (\<open>to_dom\<close>). When the serialiser and the parser
  of the browser reproduce the body of every formula (\<open>reproduces\<close>), the raw extractor
  returns, and the text of the element is then the source text with every formula in the
  canonical pair of its mode: the same pieces, equal up to the delimiters.
\<close>

theorem round_trip_up_to_delimiters:
  assumes "proper (RElem f t c rs)" and "reproduces B u (RElem f t c rs)"
    and "doc d = plug C [unrendered w (RElem f t c rs)]"
    and "distinct (ids_list (doc d))"
    and "doc (renderMathViaKatex katex f d) = plug C [to_dom (RElem f t c rs)]"
    and "distinct (ids_list (doc (renderMathViaKatex katex f d)))"
  shows "map_option node_text (lookup d f) = Some (written w (RElem f t c rs)) \<and>
     (case katexReplaceWithTex B f (renderMathViaKatex katex f d) of
        Inl _ \<Rightarrow> False
      | Inr d' \<Rightarrow>
          map_option node_text (lookup d' f) = Some (written dollars (RElem f t c rs)) \<and>
          doc d' = plug C [to_dom (raw B (RElem f t c rs))])"
proof -
  have "doc d = plug C [Elem f t c (merge_text (map (unrendered w) rs))]" using assms(3) by simp
  from fragment_lookup [OF this assms(4)]
  have "lookup d f = Some (unrendered w (RElem f t c rs))" by simp
  then have before: "map_option node_text (lookup d f) = Some (written w (RElem f t c rs))"
    by (simp only: unrendered_text option.map)
  from katexReplaceWithTex_rendered [OF assms(1) reproduces_textual [OF assms(2)] assms(5,6)]
  obtain d' where
    d': "katexReplaceWithTex B f (renderMathViaKatex katex f d) = Inr d'"
    "doc d' = plug C [to_dom (raw B (RElem f t c rs))]"
    "distinct (ids_list (doc d'))" by blast
  from fragment_after [OF d'(2,3)] have "map_option node_text (lookup d' f) =
      Some (written dollars (RElem f t c rs))"
    by (simp only: raw_text [OF assms(2)] written_dollars option.map)
  with before d'(1,2) show ?thesis by simp
qed

lemma katex_page_pre:
  "proper (RElem 1 ''div'' [''project''] rendered_content) \<and>
   reproduces html5 [] (RElem 1 ''div'' [''project''] rendered_content) \<and>
   doc (dom_with raw_page) = plug outline [unrendered pairs (RElem 1 ''div'' [''project''] rendered_content)] \<and>
   distinct (ids_list (doc (dom_with raw_page))) \<and>
   doc (renderMathViaKatex katex_page 1 (dom_with raw_page)) =
     plug outline [to_dom (RElem 1 ''div'' [''project''] rendered_content)] \<and>
   distinct (ids_list (doc (renderMathViaKatex katex_page 1 (dom_with raw_page))))"
  by code_simp

lemma katex_page_texts:
  "written pairs (RElem 1 ''div'' [''project''] rendered_content) =
     js ''a $x$ b '' @ [0x5C, 0x5B, 0x79, 0x5C, 0x5D] \<and>
   written dollars (RElem 1 ''div'' [''project''] rendered_content) = js ''a $x$ b $$y$$''"
  by code_simp

theorem round_trip_up_to_delimiters_witness:
  "proper (RElem 1 ''div'' [''project''] rendered_content) \<and>
   reproduces html5 [] (RElem 1 ''div'' [''project''] rendered_content) \<and>
   doc (dom_with raw_page) = plug outline [unrendered pairs (RElem 1 ''div'' [''project''] rendered_content)] \<and>
   distinct (ids_list (doc (dom_with raw_page))) \<and>
   doc (renderMathViaKatex katex_page 1 (dom_with raw_page)) =
     plug outline [to_dom (RElem 1 ''div'' [''project''] rendered_content)] \<and>
   distinct (ids_list (doc (renderMathViaKatex katex_page 1 (dom_with raw_page)))) \<and>
   map_option node_text (lookup (dom_with raw_page) 1) =
     Some (written pairs (RElem 1 ''div'' [''project''] rendered_content)) \<and>
   (case katexReplaceWithTex html5 1 (renderMathViaKatex katex_page 1 (dom_with raw_page)) of
      Inl _ \<Rightarrow> False
    | Inr d' \<Rightarrow>
        map_option node_text (lookup d' 1) =
          Some (written dollars (RElem 1 ''div'' [''project''] rendered_content)) \<and>
        doc d' = plug outline [to_dom (raw html5 (RElem 1 ''div'' [''project''] rendered_content))]) \<and>
   written pairs (RElem 1 ''div'' [''project''] rendered_content) =
     js ''a $x$ b '' @ [0x5C, 0x5B, 0x79, 0x5C, 0x5D] \<and>
   written dollars (RElem 1 ''div'' [''project''] rendered_content) = js ''a $x$ b $$y$$''"
proof -
  from katex_page_pre have
    h: "proper (RElem 1 ''div'' [''project''] rendered_content)"
    "reproduces html5 [] (RElem 1 ''div'' [''project''] rendered_content)"
    "doc (dom_with raw_page) = plug outline [unrendered pairs (RElem 1 ''div'' [''project''] rendered_content)]"
    "distinct (ids_list (doc (dom_with raw_page)))"
    "doc (renderMathViaKatex katex_page 1 (dom_with raw_page)) =
       plug outline [to_dom (RElem 1 ''div'' [''project''] rendered_content)]"
    "distinct (ids_list (doc (renderMathViaKatex katex_page 1 (dom_with raw_page))))"
    by blast+
  from round_trip_up_to_delimiters [OF h] h katex_page_texts show ?thesis by blast
qed

section \<open>The order of the passes\<close>




section \<open>Backspace at the start of an item\<close>

text \<open>
  What the listener itself does on Backspace at offset zero of an item whose previous visible
  sibling has a rendered element: it runs the raw extractor on that element before it
  returns, and only queues its deferred part. When the listener returns, no element of a
  class of the renderer is left in the element. In which order the browser runs this
  listener and the handlers of the host is not a matter of the script.
\<close>

lemma backspace_restores_previous_item:
  assumes "keyCode ev = 8" and "anchorOffset WF = 0" and "focusedItem WF = Some itemB"
    and "getPreviousVisibleSibling itemB = Some itemA" and "getElement itemA = Some el"
    and "contains_class ''katex-mathml'' (document st) el"
    and "proper (RElem el t c rs)" and "textual B u (RElem el t c rs)"
    and "doc (document st) = plug C [to_dom (RElem el t c rs)]"
    and "distinct (ids_list (doc (document st)))"
  shows "case wfEventListener B WF ev st of
           Inl _ \<Rightarrow> False
         | Inr st' \<Rightarrow>
             doc (document st') = plug C [to_dom (raw B (RElem el t c rs))] \<and>
             list_all (\<lambda>cl. \<not> contains_class cl (document st') el) katex_classes \<and>
             timeouts st' = timeouts st @ [TrackFocus 8] \<and>
             oldfocusedItemID st' = oldfocusedItemID st \<and> currentID st' = currentID st"
proof -
  from katexReplaceWithTex_rendered [OF assms(7,8,9,10)] obtain d' where
    d': "katexReplaceWithTex B el (document st) = Inr d'"
    "doc d' = plug C [to_dom (raw B (RElem el t c rs))]"
    "distinct (ids_list (doc d'))" by blast
  note l = fragment_after [OF d'(2,3)]
  note p = raw_fragment_plain [OF assms(7) l]
  have "wfEventListener B WF ev st =
      Inr (st\<lparr>document := d', timeouts := timeouts st @ [TrackFocus 8]\<rparr>)"
    using assms(1-6) d'(1) by (simp add: wfEventListener_def backspace_block_def)
  with d'(2) p show ?thesis by simp
qed


section \<open>The event listener on concrete hosts\<close>

text \<open>
  Claim C6 fails where the listener calls a method on the result of a host accessor without
  the test for \<open>null\<close> that it makes elsewhere: Backspace at offset zero with no focused item
  (line 211), Enter on an item without previous visible sibling (line 232, in the deferred
  part), and a focused item without element (line 274).
\<close>

theorem listener_raises_on_null:
  "script_result (wfEventListener html5 (host_focus None) (keydown 8) (script_with two_items (Some ''A'')))
     = (Some TypeError, Some ''A'', Some ''A'', []) \<and>
   script_result (track_focus html5 no_render (host_focus (Some item_A)) 13 (script_with two_items (Some ''A'')))
     = (Some TypeError, Some ''A'', Some ''A'', []) \<and>
   script_result (track_focus html5 no_render (host_focus (Some (Item ''C'' None None))) 40
        (script_with two_items (Some ''A'')))
     = (Some TypeError, Some ''C'', Some ''C'', [])"
  by code_simp

text \<open>
  Claim C4 fails on every transition: with item A focused and recorded, focus moves to
  item B and a key is pressed; when the deferred part of the listener has run,
  \<open>oldfocusedItemID\<close> is the identifier of B, not of A.
\<close>

theorem previous_id_is_current_after_transition:
  "script_result
     (run_timeout html5 no_render (host_focus (Some item_B))
        (script_of (wfEventListener html5 (host_focus (Some item_B)) (keydown 40)
                      (script_with two_items (Some ''A'')))))
     = (None, Some ''B'', Some ''B'', []) \<and>
   getId item_A = ''A'' \<and> getId item_B = ''B''"
  by code_simp


section \<open>The focus state\<close>

lemma on_dom_ids:
  "on_dom st r = Inr st' \<Longrightarrow> oldfocusedItemID st' = oldfocusedItemID st \<and> currentID st' = currentID st"
  by (auto simp: on_dom_def split: sum.splits prod.splits)

lemma rerender_old_ids:
  "rerender_old R WF st = Inr st' \<Longrightarrow>
   oldfocusedItemID st' = oldfocusedItemID st \<and> currentID st' = currentID st"
  by (auto simp: rerender_old_def dest: on_dom_ids split: if_splits option.splits)

lemma script_of_Inr: "\<not> isl r \<Longrightarrow> r = Inr (script_of r)"
  by (cases r) (simp_all add: script_of_def)

text \<open>
  Claim C4, amended. When the deferred part of the listener has run and returned with item B
  focused, \<open>currentID\<close> and \<open>oldfocusedItemID\<close> both hold the identifier of B, whatever key
  was pressed: line 273 overwrites the previous identifier with the current one. The
  identifier of the item focused before is the value of \<open>oldfocusedItemID\<close> on entry only.
\<close>

theorem focus_state_after_transition:
  assumes "focusedItem WF = Some B" and "track_focus Br R WF key st = Inr st'"
  shows "currentID st' = Some (getId B) \<and> oldfocusedItemID st' = Some (getId B)"
proof -
  obtain st1 where st1: "(if key = 13
      then (case getPreviousVisibleSibling B of None \<Rightarrow> Inl (TypeError, st)
            | Some prev \<Rightarrow> Inr (st\<lparr>oldfocusedItemID := Some (getId prev)\<rparr>))
      else Inr st) = Inr st1"
    using assms by (cases "if key = 13
      then (case getPreviousVisibleSibling B of None \<Rightarrow> Inl (TypeError, st)
            | Some prev \<Rightarrow> Inr (st\<lparr>oldfocusedItemID := Some (getId prev)\<rparr>))
      else Inr st") (auto simp: track_focus_def)
  let ?st2 = "st1\<lparr>currentID := Some (getId B)\<rparr>"
  obtain st3 where st3: "rerender_old R WF ?st2 = Inr st3"
    using assms st1 by (cases "rerender_old R WF ?st2") (auto simp: track_focus_def Let_def)
  have c3: "currentID st3 = Some (getId B)" using rerender_old_ids [OF st3] by simp
  let ?st4 = "st3\<lparr>oldfocusedItemID := currentID st3\<rparr>"
  have "st' = ?st4 \<or> (\<exists>fe. on_dom ?st4 (katexReplaceWithTex Br fe (document ?st4)) = Inr st')"
    using assms st1 st3 by (auto simp: track_focus_def Let_def split: option.splits if_splits)
  then show ?thesis
  proof
    assume "st' = ?st4"
    with c3 show ?thesis by simp
  next
    assume "\<exists>fe. on_dom ?st4 (katexReplaceWithTex Br fe (document ?st4)) = Inr st'"
    then obtain fe where "on_dom ?st4 (katexReplaceWithTex Br fe (document ?st4)) = Inr st'" ..
    from on_dom_ids [OF this] c3 show ?thesis by simp
  qed
qed

lemma two_items_returns:
  "\<not> isl (track_focus html5 no_render (host_focus (Some item_B)) 40 (script_with two_items (Some ''A'')))"
  by code_simp

theorem focus_state_after_transition_witness:
  "focusedItem (host_focus (Some item_B)) = Some item_B \<and>
   \<not> isl (track_focus html5 no_render (host_focus (Some item_B)) 40 (script_with two_items (Some ''A''))) \<and>
   currentID (script_of (track_focus html5 no_render (host_focus (Some item_B)) 40
      (script_with two_items (Some ''A'')))) = Some (getId item_B) \<and>
   oldfocusedItemID (script_of (track_focus html5 no_render (host_focus (Some item_B)) 40
      (script_with two_items (Some ''A'')))) = Some (getId item_B)"
proof -
  have f: "focusedItem (host_focus (Some item_B)) = Some item_B" by (simp add: host_focus_def)
  from focus_state_after_transition [OF f script_of_Inr [OF two_items_returns]] f two_items_returns
  show ?thesis by simp
qed


end
